theory Spec2Isabelle
  imports Main "HOL-Library.Multiset"
begin

section \<open>Python values used by the encryption core\<close>

text \<open>
  Python integers are unbounded, so they are \<^typ>\<open>int\<close>; \<open>//\<close> and \<open>%\<close> round towards
  minus infinity, as \<open>div\<close> and \<open>mod\<close> on \<^typ>\<open>int\<close> do.  Division by zero and a zero
  modulus raise in Python, whereas HOL returns a value: every such place is an explicit
  branch below.
\<close>

datatype py_error = ValueError | ZeroDivisionError | RecursionError

text \<open>
  Modular inverse by search in \<open>[0, m)\<close>: the value that Python's \<open>pow(b, -1, m)\<close> and
  \<open>Crypto.Util.number.inverse(b, m)\<close> return for a positive modulus, when there is one.
\<close>

definition mod_inverse_search :: "int \<Rightarrow> int \<Rightarrow> int option" where
  "mod_inverse_search b m = find (\<lambda>x. (b * x) mod m = 1 mod m) [0..m - 1]"

text \<open>
  Python's three-argument \<open>pow(b, e, m)\<close>.  A zero modulus raises ValueError; a negative
  exponent inverts the base first and raises ValueError when the base has no inverse.
  Every call in the source passes \<open>n * n\<close> as the modulus, which is never negative.
\<close>

definition pow_mod :: "int \<Rightarrow> int \<Rightarrow> int \<Rightarrow> py_error + int" where
  "pow_mod b e m =
     (if m = 0 then Inl ValueError
      else if 0 \<le> e then Inr (b ^ nat e mod m)
      else (case mod_inverse_search b m of
              None \<Rightarrow> Inl ValueError
            | Some i \<Rightarrow> Inr (i ^ nat (- e) mod m)))"

text \<open>
  Modelled from the spec: \<open>Crypto.Util.number.inverse\<close> is a library function, not part of
  the sources; the spec has \<open>mu = lambda^-1 mod n\<close> and key generation failing when
  \<open>lambda\<close> is not invertible modulo \<open>n\<close>.
\<close>

definition number_inverse :: "int \<Rightarrow> int \<Rightarrow> py_error + int" where
  "number_inverse u v =
     (if v = 0 then Inl ZeroDivisionError
      else if v < 0 then Inl ValueError
      else (case mod_inverse_search u v of
              None \<Rightarrow> Inl ValueError
            | Some x \<Rightarrow> Inr x))"

text \<open>
  Modelled from the spec: \<open>Crypto.Util.number.getPrime\<close> is a library function; the spec
  has \<open>p\<close> and \<open>q\<close> random primes.  The numbers it returns are taken as inputs of the
  model, and \<open>is_prime\<close> says what they are.
\<close>

definition is_prime :: "int \<Rightarrow> bool" where
  "is_prime p = (1 < p \<and> list_all (\<lambda>d. \<not> d dvd p) [2..p - 1])"


section \<open>paillier.py\<close>

subsection \<open>PaillierKeyPair\<close>

record PaillierKeyPair =
  kp_public_key :: "int \<times> int"
  kp_private_key :: int
  kp_n :: int
  kp_g :: int
  kp_lambda_val :: int
  kp_mu :: int

definition PaillierKeyPair_init :: "int \<times> int \<Rightarrow> int \<Rightarrow> py_error + PaillierKeyPair" where
  "PaillierKeyPair_init public_key private_key =
     (case public_key of (n, g) \<Rightarrow>
        (case number_inverse private_key n of
           Inl e \<Rightarrow> Inl e
         | Inr mu \<Rightarrow>
             Inr \<lparr> kp_public_key = public_key, kp_private_key = private_key,
                   kp_n = n, kp_g = g, kp_lambda_val = private_key, kp_mu = mu \<rparr>))"

subsection \<open>PaillierEncryption\<close>

text \<open>
  \<open>generate_key_pair\<close>: \<open>p\<close> is the first prime drawn and \<open>qs\<close> the successive results of
  \<open>getPrime\<close> for \<open>q\<close>; the \<open>while p == q\<close> loop keeps the first one that differs from
  \<open>p\<close>.  \<open>None\<close> stands for a loop that has not ended within the draws given.
\<close>

fun resample_q :: "int \<Rightarrow> int list \<Rightarrow> int option" where
  "resample_q p [] = None"
| "resample_q p (q # qs) = (if p = q then resample_q p qs else Some q)"

definition generate_key_pair :: "int \<Rightarrow> int list \<Rightarrow> (py_error + PaillierKeyPair) option" where
  "generate_key_pair p qs =
     (case resample_q p qs of
        None \<Rightarrow> None
      | Some q \<Rightarrow>
          Some (let n = p * q;
                    lambda_val = lcm (p - 1) (q - 1);
                    g = n + 1
                in (case number_inverse lambda_val n of
                      Inl e \<Rightarrow> Inl e
                    | Inr mu \<Rightarrow> PaillierKeyPair_init (n, g) lambda_val)))"

text \<open>
  \<open>encrypt\<close>: \<open>draws\<close> are the successive results of \<open>random.randint(1, n - 1)\<close>; the loop
  keeps the first one coprime to \<open>n\<close>.  \<open>randint\<close> raises ValueError on the empty range.
\<close>

fun choose_r :: "int \<Rightarrow> int list \<Rightarrow> int option" where
  "choose_r n [] = None"
| "choose_r n (r # rs) = (if gcd r n \<noteq> 1 then choose_r n rs else Some r)"

definition encrypt_with :: "int \<Rightarrow> int \<Rightarrow> int \<times> int \<Rightarrow> py_error + int" where
  "encrypt_with r message public_key =
     (case public_key of (n, g) \<Rightarrow>
        let n_squared = n * n in
        (case pow_mod g message n_squared of
           Inl e \<Rightarrow> Inl e
         | Inr a \<Rightarrow>
             (case pow_mod r n n_squared of
                Inl e \<Rightarrow> Inl e
              | Inr b \<Rightarrow> Inr ((a * b) mod n_squared))))"

definition encrypt :: "int \<Rightarrow> int \<times> int \<Rightarrow> int list \<Rightarrow> (py_error + int) option" where
  "encrypt message public_key draws =
     (case public_key of (n, g) \<Rightarrow>
        if message < 0 \<or> message \<ge> n then Some (Inl ValueError)
        else if n - 1 < 1 then Some (Inl ValueError)
        else (case choose_r n draws of
                None \<Rightarrow> None
              | Some r \<Rightarrow> Some (encrypt_with r message public_key)))"

definition decrypt :: "int \<Rightarrow> PaillierKeyPair \<Rightarrow> py_error + int" where
  "decrypt ciphertext key_pair =
     (let n = kp_n key_pair;
          lambda_val = kp_lambda_val key_pair;
          mu = kp_mu key_pair;
          n_squared = n * n
      in (case pow_mod ciphertext lambda_val n_squared of
            Inl e \<Rightarrow> Inl e
          | Inr x \<Rightarrow>
              if n = 0 then Inl ZeroDivisionError
              else (let l_x = (x - 1) div n;
                        message = (l_x * mu) mod n
                    in Inr message)))"

definition add_ciphertexts :: "int \<Rightarrow> int \<Rightarrow> int \<times> int \<Rightarrow> py_error + int" where
  "add_ciphertexts ciphertext1 ciphertext2 public_key =
     (case public_key of (n, _) \<Rightarrow>
        let n_squared = n * n in
        if n_squared = 0 then Inl ZeroDivisionError
        else Inr ((ciphertext1 * ciphertext2) mod n_squared))"

definition multiply_ciphertext :: "int \<Rightarrow> int \<Rightarrow> int \<times> int \<Rightarrow> py_error + int" where
  "multiply_ciphertext ciphertext scalar public_key =
     (case public_key of (n, _) \<Rightarrow> pow_mod ciphertext scalar (n * n))"

subsection \<open>ThresholdPaillier\<close>

definition partial_decrypt :: "int \<Rightarrow> int \<Rightarrow> PaillierKeyPair \<Rightarrow> py_error + int" where
  "partial_decrypt ciphertext private_key_share key_pair =
     (let n = kp_n key_pair in pow_mod ciphertext private_key_share (n * n))"

text \<open>
  With \<open>n = 0\<close> the loop body raises on a non-empty list and \<open>(combined - 1) // n\<close> raises
  on the empty one, so the call always ends in ZeroDivisionError.
\<close>

definition combine_partial_decryptions :: "int list \<Rightarrow> PaillierKeyPair \<Rightarrow> py_error + int" where
  "combine_partial_decryptions partial_results key_pair =
     (let n = kp_n key_pair;
          n_squared = n * n
      in if n = 0 then Inl ZeroDivisionError
         else (let combined = fold (\<lambda>partial combined. (combined * partial) mod n_squared)
                                partial_results 1;
                   l_combined = (combined - 1) div n;
                   mu = kp_mu key_pair;
                   message = (l_combined * mu) mod n
               in Inr message))"

subsection \<open>VoteEncryption\<close>

definition encrypt_vote :: "int \<Rightarrow> int \<times> int \<Rightarrow> int list \<Rightarrow> (py_error + int) option" where
  "encrypt_vote vote_value public_key draws = encrypt vote_value public_key draws"

fun aggregate_loop :: "int \<times> int \<Rightarrow> int list \<Rightarrow> py_error + int \<Rightarrow> py_error + int" where
  "aggregate_loop public_key [] result = result"
| "aggregate_loop public_key (vote # votes) result =
     (case result of
        Inl e \<Rightarrow> Inl e
      | Inr r \<Rightarrow> aggregate_loop public_key votes (add_ciphertexts r vote public_key))"

definition aggregate_votes :: "int list \<Rightarrow> int \<times> int \<Rightarrow> py_error + int" where
  "aggregate_votes encrypted_votes public_key =
     (case encrypted_votes of
        [] \<Rightarrow> Inr 0
      | first # rest \<Rightarrow> aggregate_loop public_key rest (Inr first))"

definition verify_vote_encryption :: "int \<Rightarrow> int \<times> int \<Rightarrow> bool" where
  "verify_vote_encryption encrypted_vote public_key =
     (case public_key of (n, _) \<Rightarrow>
        let n_squared = n * n in
        if encrypted_vote \<le> 0 \<or> encrypted_vote \<ge> n_squared then False
        else if gcd encrypted_vote n \<noteq> 1 then False
        else True)"


section \<open>shamir.py\<close>

subsection \<open>ShamirSecretSharing\<close>

record ShamirSecretSharing =
  ss_total_shares :: int
  ss_threshold :: int
  ss_prime :: int

text \<open>The constructor with an explicit \<open>prime\<close> argument.\<close>

definition ShamirSecretSharing_init :: "int \<Rightarrow> int \<Rightarrow> int \<Rightarrow> py_error + ShamirSecretSharing" where
  "ShamirSecretSharing_init total_shares threshold prime =
     (if threshold > total_shares then Inl ValueError
      else Inr \<lparr> ss_total_shares = total_shares, ss_threshold = threshold, ss_prime = prime \<rparr>)"

text \<open>
  \<open>_evaluate_polynomial\<close>: Horner's rule over \<open>reversed(coefficients)\<close>.  The loop body runs
  once per coefficient, so a zero \<open>prime\<close> raises as soon as there is one.
\<close>

definition evaluate_polynomial :: "int \<Rightarrow> int list \<Rightarrow> int \<Rightarrow> py_error + int" where
  "evaluate_polynomial prime coefficients x =
     (if coefficients \<noteq> [] \<and> prime = 0 then Inl ZeroDivisionError
      else Inr (fold (\<lambda>coefficient result. (result * x + coefficient) mod prime)
                  (rev coefficients) 0))"

text \<open>
  \<open>generate_shares\<close>: \<open>draws\<close> are the successive results of
  \<open>random.randint(1, prime - 1)\<close>; the loop \<open>for i in range(1, threshold)\<close> uses the first
  \<open>threshold - 1\<close> of them, and \<open>randint\<close> raises ValueError on the empty range.
\<close>

fun shares_loop :: "int \<Rightarrow> int list \<Rightarrow> int list \<Rightarrow> py_error + (int \<times> int) list" where
  "shares_loop prime coefficients [] = Inr []"
| "shares_loop prime coefficients (i # is) =
     (case evaluate_polynomial prime coefficients i of
        Inl e \<Rightarrow> Inl e
      | Inr share_value \<Rightarrow>
          (case shares_loop prime coefficients is of
             Inl e \<Rightarrow> Inl e
           | Inr shares \<Rightarrow> Inr ((i, share_value) # shares)))"

definition generate_shares ::
    "ShamirSecretSharing \<Rightarrow> int \<Rightarrow> int list \<Rightarrow> py_error + (int \<times> int) list" where
  "generate_shares self secret draws =
     (if secret \<ge> ss_prime self then Inl ValueError
      else if 1 < ss_threshold self \<and> ss_prime self - 1 < 1 then Inl ValueError
      else (let coefficients = secret # take (nat (ss_threshold self - 1)) draws
            in shares_loop (ss_prime self) coefficients [1..ss_total_shares self]))"

text \<open>
  The nested helper \<open>extended_gcd\<close> of \<open>_mod_inverse\<close> calls itself once per step of
  Euclid's algorithm, and every call takes a Python frame.  \<open>frames\<close> is the number of
  nested calls of \<open>extended_gcd\<close> that the interpreter still allows where \<open>_mod_inverse\<close>
  makes the first one: the recursion limit (1000 by default; nothing in the sources changes
  it) minus the depth of the call stack there.  A call with no frame left raises
  RecursionError.
\<close>

fun extended_gcd :: "nat \<Rightarrow> int \<Rightarrow> int \<Rightarrow> py_error + int \<times> int \<times> int" where
  "extended_gcd 0 a b = Inl RecursionError"
| "extended_gcd (Suc frames) a b =
     (if a = 0 then Inr (b, 0, 1)
      else (case extended_gcd frames (b mod a) a of
              Inl e \<Rightarrow> Inl e
            | Inr (d, x1, y1) \<Rightarrow> Inr (d, y1 - (b div a) * x1, x1)))"

definition mod_inverse :: "nat \<Rightarrow> int \<Rightarrow> int \<Rightarrow> py_error + int" where
  "mod_inverse frames prime a =
     (case extended_gcd frames a prime of
        Inl e \<Rightarrow> Inl e
      | Inr (d, x, _) \<Rightarrow>
          if d \<noteq> 1 then Inl ValueError
          else if prime = 0 then Inl ZeroDivisionError
          else Inr ((x mod prime + prime) mod prime))"

text \<open>Python's \<open>shares[:k]\<close>: a negative \<open>k\<close> counts from the end.\<close>

definition py_prefix :: "'a list \<Rightarrow> int \<Rightarrow> 'a list" where
  "py_prefix xs k = (if 0 \<le> k then take (nat k) xs else take (nat (int (length xs) + k)) xs)"

text \<open>The inner loop of \<open>reconstruct_secret\<close>, over \<open>enumerate(shares)\<close>.\<close>

definition lagrange_terms :: "int \<Rightarrow> nat \<Rightarrow> int \<Rightarrow> (int \<times> int) list \<Rightarrow> int \<times> int" where
  "lagrange_terms prime i x_i shares =
     fold (\<lambda>(j, (x_j, _)) (numerator, denominator).
             if i \<noteq> j
             then ((numerator * (- x_j)) mod prime, (denominator * (x_i - x_j)) mod prime)
             else (numerator, denominator))
          (enumerate 0 shares) (1, 1)"

text \<open>One round of the outer loop; an exception raised in a round ends the call.\<close>

definition reconstruct_step ::
    "nat \<Rightarrow> int \<Rightarrow> (int \<times> int) list \<Rightarrow> nat \<times> int \<times> int \<Rightarrow> py_error + int \<Rightarrow> py_error + int" where
  "reconstruct_step frames prime shares = (\<lambda>(i, (x_i, y_i)) acc.
     (case acc of
        Inl e \<Rightarrow> Inl e
      | Inr secret \<Rightarrow>
          (case lagrange_terms prime i x_i shares of
             (numerator, denominator) \<Rightarrow>
               (case mod_inverse frames prime denominator of
                  Inl e \<Rightarrow> Inl e
                | Inr inverse_value \<Rightarrow>
                    (let lagrange_coeff = (numerator * inverse_value) mod prime
                     in Inr ((secret + y_i * lagrange_coeff) mod prime))))))"

text \<open>
  \<open>reconstruct_secret\<close>.  With no share left after the slice the loop does not run and the
  result is 0.  With \<open>prime = 0\<close> and two shares or more, the inner loop of the first round
  divides by zero before \<open>_mod_inverse\<close> is called.  With \<open>prime = 0\<close> and one share the
  inner loop computes nothing and \<open>_mod_inverse\<close> raises, so no other \<open>% prime\<close> is
  reached.
\<close>

definition reconstruct_secret ::
    "nat \<Rightarrow> ShamirSecretSharing \<Rightarrow> (int \<times> int) list \<Rightarrow> py_error + int" where
  "reconstruct_secret frames self shares =
     (if int (length shares) < ss_threshold self then Inl ValueError
      else (let shares = py_prefix shares (ss_threshold self)
            in if shares = [] then Inr 0
               else if ss_prime self = 0 \<and> 2 \<le> length shares then Inl ZeroDivisionError
               else fold (reconstruct_step frames (ss_prime self) shares)
                      (enumerate 0 shares) (Inr 0)))"

text \<open>
  \<open>verify_share\<close>: the bare \<open>except\<close> turns every exception into False.  \<open>frames\<close> is
  what the interpreter allows inside the call of \<open>reconstruct_secret\<close> made here.
\<close>

definition verify_share ::
    "nat \<Rightarrow> ShamirSecretSharing \<Rightarrow> int \<times> int \<Rightarrow> (int \<times> int) list \<Rightarrow> bool" where
  "verify_share frames self share other_shares =
     (if int (length other_shares) < ss_threshold self - 1 then True
      else (case reconstruct_secret frames self other_shares of
              Inl e \<Rightarrow> False
            | Inr reconstructed \<Rightarrow>
                (case evaluate_polynomial (ss_prime self) [reconstructed] (fst share) of
                   Inl e \<Rightarrow> False
                 | Inr expected_value \<Rightarrow> expected_value = snd share)))"

subsection \<open>ThresholdDecryption\<close>

text \<open>
  \<open>ThresholdDecryption.combine_partial_decryptions\<close> takes the public key and returns
  \<open>l_combined\<close>.  With \<open>n = 0\<close> it always ends in ZeroDivisionError, as its namesake does.
\<close>

definition td_combine_partial_decryptions :: "int list \<Rightarrow> int \<times> int \<Rightarrow> py_error + int" where
  "td_combine_partial_decryptions partial_results public_key =
     (case public_key of (n, _) \<Rightarrow>
        let n_squared = n * n in
        if n = 0 then Inl ZeroDivisionError
        else (let combined = fold (\<lambda>partial combined. (combined * partial) mod n_squared)
                               partial_results 1;
                  l_combined = (combined - 1) div n
              in Inr l_combined))"


section \<open>Auxiliary notions for the proofs\<close>

text \<open>
  \<open>encrypts n c M\<close>: modulo \<open>n\<^sup>2\<close> the integer \<open>c\<close> has the shape
  \<open>(1 + n)^M * R^n\<close> of a Paillier ciphertext of \<open>M\<close>, for some \<open>R\<close> coprime to \<open>n\<close>.
\<close>

definition encrypts :: "int \<Rightarrow> int \<Rightarrow> nat \<Rightarrow> bool" where
  "encrypts n c M =
     (\<exists>R. coprime R n \<and> c mod (n * n) = ((1 + n) ^ M * R ^ nat n) mod (n * n))"

text \<open>
  The distribution of share values over the coefficient draws: \<open>coefficient_draws\<close> lists
  every vector of \<open>threshold - 1\<close> results of \<open>randint(1, prime - 1)\<close>, and
  \<open>outcome_count\<close> counts the vectors for which the shares with the given ids take the
  given values.  The draws are uniform, so two distributions are equal exactly when all
  their counts are.
\<close>

definition coefficient_draws :: "ShamirSecretSharing \<Rightarrow> int list list" where
  "coefficient_draws self =
     List.n_lists (nat (ss_threshold self - 1)) [1..ss_prime self - 1]"

definition share_values_at ::
    "ShamirSecretSharing \<Rightarrow> int \<Rightarrow> int list \<Rightarrow> int list \<Rightarrow> py_error + int option list" where
  "share_values_at self secret ids draws =
     (case generate_shares self secret draws of
        Inl e \<Rightarrow> Inl e
      | Inr shares \<Rightarrow> Inr (map (map_of shares) ids))"

definition outcome_count ::
    "ShamirSecretSharing \<Rightarrow> int \<Rightarrow> int list \<Rightarrow> py_error + int option list \<Rightarrow> nat" where
  "outcome_count self secret ids v =
     length (filter (\<lambda>draws. share_values_at self secret ids draws = v) (coefficient_draws self))"

text \<open>
  Polynomials for the interpolation proof: \<open>peval cs x\<close> is the value at \<open>x\<close> of the
  polynomial with coefficients \<open>cs\<close> (constant term first, no reduction), \<open>pquot a cs\<close>
  its quotient by \<open>X - a\<close>, and \<open>polyfun k F\<close> says that \<open>F\<close> is a polynomial function
  with at most \<open>k\<close> coefficients.
\<close>

fun peval :: "int list \<Rightarrow> int \<Rightarrow> int" where
  "peval [] x = 0"
| "peval (c # cs) x = c + x * peval cs x"

fun pquot :: "int \<Rightarrow> int list \<Rightarrow> int list" where
  "pquot a [] = []"
| "pquot a (c # cs) = (if cs = [] then [] else peval cs a # pquot a cs)"

definition polyfun :: "nat \<Rightarrow> (int \<Rightarrow> int) \<Rightarrow> bool" where
  "polyfun k F = (\<exists>cs. length cs \<le> k \<and> (\<forall>x. F x = peval cs x))"


section \<open>Aggregation without validation\<close>

text \<open>
  C10: \<open>aggregate_votes\<close> of a one-element list returns that element unchanged, for every
  public key and every integer: nothing is validated or reduced.
\<close>

theorem aggregate_votes_singleton: "aggregate_votes [c] public_key = Inr c"
  by (simp add: aggregate_votes_def)


section \<open>Number theory for the Paillier round trip\<close>

lemma is_prime_gt_1: "is_prime p \<Longrightarrow> 1 < p"
  by (simp add: is_prime_def)

lemma is_prime_divisors:
  assumes "is_prime p" and "0 < d" and "d dvd p"
  shows "d = 1 \<or> d = p"
proof -
  have p: "1 < p" and nd: "\<forall>k\<in>{2..p - 1}. \<not> k dvd p"
    using assms(1) by (simp_all add: is_prime_def list_all_iff)
  have "d \<le> p" using assms(3) p by (simp add: zdvd_imp_le)
  show ?thesis
  proof (rule ccontr)
    assume "\<not> (d = 1 \<or> d = p)"
    with \<open>d \<le> p\<close> \<open>0 < d\<close> have "d \<in> {2..p - 1}" by simp
    with nd assms(3) show False by blast
  qed
qed

lemma is_prime_coprime:
  assumes "is_prime p" and "\<not> p dvd a"
  shows "coprime a p"
proof -
  have p: "1 < p" using assms(1) by (rule is_prime_gt_1)
  have "gcd a p dvd p" by simp
  moreover have "0 < gcd a p" using p by (simp add: less_le)
  ultimately have "gcd a p = 1 \<or> gcd a p = p"
    using assms(1) is_prime_divisors by blast
  moreover have "gcd a p \<noteq> p"
  proof
    assume "gcd a p = p"
    then have "p dvd a" by (metis gcd_dvd1)
    with assms(2) show False by simp
  qed
  ultimately show ?thesis by (simp add: coprime_iff_gcd_eq_1)
qed

lemma is_prime_dvd_mult:
  assumes "is_prime p" and "p dvd a * b"
  shows "p dvd a \<or> p dvd b"
proof (cases "p dvd a")
  case False
  with assms(1) have "coprime a p" by (rule is_prime_coprime)
  then have "coprime p a" by (simp add: coprime_commute)
  then show ?thesis using assms(2) by (simp add: coprime_dvd_mult_right_iff)
qed simp

lemma is_prime_dvd_binomial:
  assumes "is_prime p" and "0 < k" and "k < nat p"
  shows "p dvd int (nat p choose k)"
proof -
  have p: "1 < p" using assms(1) by (rule is_prime_gt_1)
  have "k * (nat p choose k) = nat p * ((nat p - 1) choose (k - 1))"
    using assms(2) by (rule times_binomial_minus1_eq)
  then have "int (k * (nat p choose k)) = int (nat p * ((nat p - 1) choose (k - 1)))"
    by simp
  then have "int k * int (nat p choose k) = p * int ((nat p - 1) choose (k - 1))"
    using p by simp
  then have "p dvd int k * int (nat p choose k)" by simp
  moreover have "\<not> p dvd int k"
    using assms(2,3) p by (auto dest!: zdvd_imp_le)
  ultimately show ?thesis using assms(1) is_prime_dvd_mult by blast
qed

lemma freshman_step:
  assumes "is_prime p"
  shows "p dvd (a + 1) ^ nat p - a ^ nat p - 1"
proof -
  define P where "P = nat p"
  have p: "1 < p" using assms by (rule is_prime_gt_1)
  then have P: "1 < P" by (simp add: P_def)
  define f where "f k = int (P choose k) * a ^ k" for k
  have "(a + 1) ^ P = (\<Sum>k\<le>P. f k)"
    using binomial_ring [of a 1 P] by (simp add: f_def)
  also have "\<dots> = f 0 + sum f ({..P} - {0})"
    by (rule sum.remove) simp_all
  also have "sum f ({..P} - {0}) = f P + sum f ({..P} - {0} - {P})"
    using P by (intro sum.remove) simp_all
  finally have "(a + 1) ^ P - a ^ P - 1 = sum f ({..P} - {0} - {P})"
    by (simp add: f_def)
  moreover have "p dvd sum f ({..P} - {0} - {P})"
  proof (rule dvd_sum)
    fix k assume "k \<in> {..P} - {0} - {P}"
    then have "0 < k" "k < nat p" by (auto simp: P_def)
    then have "p dvd int (nat p choose k)" using assms is_prime_dvd_binomial by blast
    then show "p dvd f k" by (simp add: f_def P_def)
  qed
  ultimately show ?thesis by (simp add: P_def)
qed

lemma fermat_nat:
  assumes "is_prime p"
  shows "p dvd (int a) ^ nat p - int a"
proof (induction a)
  case 0
  have "0 < nat p" using is_prime_gt_1 [OF assms] by simp
  then show ?case by (simp add: zero_power)
next
  case (Suc a)
  have s: "int (Suc a) = int a + 1" by simp
  have e: "(int a + 1) ^ nat p - (int a + 1) =
        ((int a + 1) ^ nat p - (int a) ^ nat p - 1) + ((int a) ^ nat p - int a)"
    by simp
  have d: "p dvd ((int a + 1) ^ nat p - (int a) ^ nat p - 1) + ((int a) ^ nat p - int a)"
    using Suc freshman_step [OF assms, of "int a"] by (rule_tac dvd_add)
  show ?case unfolding s e by (rule d)
qed

lemma fermat_int:
  assumes "is_prime p"
  shows "r ^ nat p mod p = r mod p"
proof -
  have p: "1 < p" using assms by (rule is_prime_gt_1)
  define a where "a = nat (r mod p)"
  have a: "int a = r mod p" using p by (simp add: a_def)
  have "p dvd (r mod p) ^ nat p - r mod p" using fermat_nat [OF assms, of a] a by simp
  then have "(r mod p) ^ nat p mod p = (r mod p) mod p"
    by (subst mod_eq_dvd_iff)
  then show ?thesis by (simp add: power_mod)
qed

lemma fermat_little:
  assumes "is_prime p" and "coprime r p"
  shows "p dvd r ^ nat (p - 1) - 1"
proof -
  have p: "1 < p" using assms(1) by (rule is_prime_gt_1)
  have "p dvd r ^ nat p - r"
    using fermat_int [OF assms(1), of r] by (simp add: mod_eq_dvd_iff)
  moreover have "nat p = Suc (nat (p - 1))" using p by simp
  ultimately have "p dvd r * (r ^ nat (p - 1) - 1)"
    by (simp add: algebra_simps)
  moreover have "coprime p r" using assms(2) by (simp add: coprime_commute)
  ultimately show ?thesis by (simp add: coprime_dvd_mult_right_iff)
qed

lemma power_one_mod_multiple:
  fixes r p :: int
  assumes "p dvd r ^ k - 1" and "k dvd l"
  shows "p dvd r ^ l - 1"
proof -
  from assms(2) obtain j where l: "l = k * j" by (auto simp: dvd_def)
  have "(r ^ k) ^ j mod p = 1 ^ j mod p"
    using assms(1) by (metis mod_eq_dvd_iff power_mod)
  then show ?thesis by (simp add: l power_mult mod_eq_dvd_iff)
qed


lemma is_prime_distinct_coprime:
  assumes "is_prime p" and "is_prime q" and "p \<noteq> q"
  shows "coprime p q"
proof -
  have "\<not> q dvd p"
  proof
    assume "q dvd p"
    moreover have "0 < q" using is_prime_gt_1 [OF assms(2)] by simp
    ultimately have "q = 1 \<or> q = p" using assms(1) is_prime_divisors by blast
    then show False using is_prime_gt_1 [OF assms(2)] assms(3) by auto
  qed
  with assms(2) show ?thesis by (rule is_prime_coprime)
qed

lemma one_plus_multiple_power:
  fixes n k :: int
  shows "n * n dvd (1 + k * n) ^ j - (1 + int j * k * n)"
proof (induction j)
  case 0
  show ?case by simp
next
  case (Suc j)
  have "(1 + k * n) ^ Suc j - (1 + int (Suc j) * k * n) =
        ((1 + k * n) ^ j - (1 + int j * k * n)) * (1 + k * n) + n * n * (int j * k * k)"
    by (simp add: algebra_simps)
  moreover have "n * n dvd ((1 + k * n) ^ j - (1 + int j * k * n)) * (1 + k * n) + n * n * (int j * k * k)"
    by (rule dvd_add [OF dvd_mult2 [OF Suc] dvd_triv_left])
  ultimately show ?case by (simp only:)
qed

lemma power_modulus_cong_one:
  fixes n x :: int
  assumes "n dvd x - 1" and "0 \<le> n"
  shows "n * n dvd x ^ nat n - 1"
proof -
  from assms(1) obtain k where "x - 1 = n * k" by (auto simp: dvd_def)
  then have x: "x = 1 + k * n" by (simp add: algebra_simps)
  have "n * n dvd (1 + k * n) ^ nat n - (1 + int (nat n) * k * n)"
    by (rule one_plus_multiple_power)
  moreover have "(1 + k * n) ^ nat n - 1 =
        ((1 + k * n) ^ nat n - (1 + int (nat n) * k * n)) + n * n * k"
    using assms(2) by (simp add: algebra_simps)
  ultimately have "n * n dvd (1 + k * n) ^ nat n - 1"
    by (simp only: dvd_add dvd_triv_left)
  then show ?thesis by (simp add: x)
qed

lemma carmichael_two_primes:
  assumes "is_prime p" and "is_prime q" and "p \<noteq> q" and "coprime r (p * q)"
  shows "p * q dvd r ^ nat (lcm (p - 1) (q - 1)) - 1"
proof -
  define l where "l = nat (lcm (p - 1) (q - 1))"
  have p: "1 < p" and q: "1 < q"
    using assms(1,2) by (auto dest: is_prime_gt_1)
  have l: "int l = lcm (p - 1) (q - 1)" by (simp add: l_def)
  have "int (nat (p - 1)) dvd int l" using p by (simp add: l)
  then have pl: "nat (p - 1) dvd l" by (simp only: int_dvd_int_iff)
  have "int (nat (q - 1)) dvd int l" using q by (simp add: l)
  then have ql: "nat (q - 1) dvd l" by (simp only: int_dvd_int_iff)
  have "coprime r p" "coprime r q" using assms(4) by simp_all
  then have "p dvd r ^ nat (p - 1) - 1" "q dvd r ^ nat (q - 1) - 1"
    using assms(1,2) by (simp_all add: fermat_little)
  then have "p dvd r ^ l - 1" "q dvd r ^ l - 1"
    using pl ql by (auto intro: power_one_mod_multiple)
  moreover have "coprime p q" using assms(1-3) by (rule is_prime_distinct_coprime)
  ultimately show ?thesis unfolding l_def by (simp add: divides_mult)
qed

lemma one_plus_multiple_mod:
  fixes n a :: int
  assumes "1 < n"
  shows "(1 + a * n) mod (n * n) = 1 + (a mod n) * n"
proof -
  have "a mod n \<le> n - 1" "0 \<le> a mod n" using assms by simp_all
  then have "(a mod n) * n \<le> (n - 1) * n" "0 \<le> (a mod n) * n"
    using assms by (simp_all add: mult_right_mono)
  then have b: "0 \<le> 1 + (a mod n) * n" "1 + (a mod n) * n < n * n"
    using assms by (simp_all add: algebra_simps)
  have "1 + a * n = (1 + (a mod n) * n) + (a div n) * (n * n)"
  proof -
    have "a * n = ((a div n) * n + a mod n) * n" by (simp only: div_mult_mod_eq)
    also have "\<dots> = (a mod n) * n + (a div n) * (n * n)" by (simp only: algebra_simps)
    finally show ?thesis by simp
  qed
  then have "(1 + a * n) mod (n * n) = (1 + (a mod n) * n) mod (n * n)"
    by (simp only: mod_mult_self1)
  then show ?thesis using b by simp
qed


lemma pow_mod_nonneg: "m \<noteq> 0 \<Longrightarrow> 0 \<le> e \<Longrightarrow> pow_mod b e m = Inr (b ^ nat e mod m)"
  by (simp add: pow_mod_def)

lemma decrypt_core:
  assumes pq: "is_prime p" "is_prime q" "p \<noteq> q"
    and n: "kp_n kp = p * q"
    and lam: "kp_lambda_val kp = lcm (p - 1) (q - 1)"
    and mu: "(lcm (p - 1) (q - 1) * kp_mu kp) mod (p * q) = 1"
    and R: "coprime R (p * q)"
    and c: "c mod (p * q * (p * q)) = ((1 + p * q) ^ M * R ^ nat (p * q)) mod (p * q * (p * q))"
  shows "decrypt c kp = Inr (int M mod (p * q))"
proof -
  define N where "N = p * q"
  define L where "L = nat (lcm (p - 1) (q - 1))"
  have p1: "1 < p" and q1: "1 < q" using pq by (auto dest: is_prime_gt_1)
  have "1 * 1 < p * q" using p1 q1 by (intro mult_strict_mono) simp_all
  then have N1: "1 < N" by (simp add: N_def)
  have L: "int L = lcm (p - 1) (q - 1)" by (simp add: L_def)
  have "N dvd R ^ L - 1"
    unfolding N_def L_def using pq R by (rule carmichael_two_primes)
  then have "N * N dvd (R ^ L) ^ nat N - 1"
    using N1 by (intro power_modulus_cong_one) simp_all
  then have r1: "(R ^ L) ^ nat N mod (N * N) = 1 mod (N * N)"
    by (simp only: mod_eq_dvd_iff)
  have "N * N dvd (1 + 1 * N) ^ (M * L) - (1 + int (M * L) * 1 * N)"
    by (rule one_plus_multiple_power)
  then have g1: "(1 + N) ^ (M * L) mod (N * N) = (1 + int (M * L) * N) mod (N * N)"
    by (simp add: mod_eq_dvd_iff)
  have "c ^ L mod (N * N) = (c mod (N * N)) ^ L mod (N * N)"
    by (simp only: power_mod)
  also have "\<dots> = (((1 + N) ^ M * R ^ nat N) mod (N * N)) ^ L mod (N * N)"
    using c by (simp only: N_def)
  also have "\<dots> = ((1 + N) ^ M * R ^ nat N) ^ L mod (N * N)"
    by (simp only: power_mod)
  also have "((1 + N) ^ M * R ^ nat N) ^ L = (1 + N) ^ (M * L) * (R ^ L) ^ nat N"
    by (simp add: power_mult_distrib power_mult [symmetric] mult.commute)
  also have "\<dots> mod (N * N) = ((1 + N) ^ (M * L) mod (N * N) * ((R ^ L) ^ nat N mod (N * N))) mod (N * N)"
    by (simp only: mod_mult_eq)
  also have "\<dots> = ((1 + int (M * L) * N) mod (N * N) * (1 mod (N * N))) mod (N * N)"
    by (simp only: r1 g1)
  also have "\<dots> = (1 + int (M * L) * N) mod (N * N)"
    by (simp only: mod_mult_eq mult_1_right)
  also have "\<dots> = 1 + (int (M * L) mod N) * N"
    using N1 by (rule one_plus_multiple_mod)
  finally have x: "c ^ L mod (N * N) = 1 + (int (M * L) mod N) * N" .
  have NN: "N * N \<noteq> 0" "N \<noteq> 0" using N1 by simp_all
  have "0 \<le> lcm (p - 1) (q - 1)" by simp
  then have pm: "pow_mod c (lcm (p - 1) (q - 1)) (N * N) = Inr (c ^ L mod (N * N))"
    using NN unfolding L_def by (intro pow_mod_nonneg)
  have "(int (M * L) mod N * kp_mu kp) mod N = (int M * (int L * kp_mu kp)) mod N"
    by (simp add: mod_mult_left_eq mult.assoc)
  also have "\<dots> = (int M * ((int L * kp_mu kp) mod N)) mod N"
    by (simp only: mod_mult_right_eq)
  also have "(int L * kp_mu kp) mod N = 1"
    using mu by (simp add: L N_def)
  finally have m: "(int (M * L) mod N * kp_mu kp) mod N = int M mod N" by simp
  have "decrypt c kp = Inr ((((c ^ L mod (N * N)) - 1) div N * kp_mu kp) mod N)"
    using pm NN by (simp add: decrypt_def n lam N_def [symmetric])
  also have "((c ^ L mod (N * N)) - 1) div N = int (M * L) mod N"
    using NN by (simp add: x)
  finally show ?thesis using m by (simp add: N_def)
qed


lemma encrypts_mult:
  assumes "encrypts n c1 M1" and "encrypts n c2 M2"
  shows "encrypts n (c1 * c2) (M1 + M2)"
proof -
  from assms obtain R1 R2 where
    R: "coprime R1 n" "coprime R2 n" and
    c1: "c1 mod (n * n) = ((1 + n) ^ M1 * R1 ^ nat n) mod (n * n)" and
    c2: "c2 mod (n * n) = ((1 + n) ^ M2 * R2 ^ nat n) mod (n * n)"
    by (auto simp: encrypts_def)
  have "(c1 * c2) mod (n * n) = (c1 mod (n * n) * (c2 mod (n * n))) mod (n * n)"
    by (simp only: mod_mult_eq)
  also have "\<dots> = (((1 + n) ^ M1 * R1 ^ nat n) * ((1 + n) ^ M2 * R2 ^ nat n)) mod (n * n)"
    by (simp only: c1 c2 mod_mult_eq)
  also have "((1 + n) ^ M1 * R1 ^ nat n) * ((1 + n) ^ M2 * R2 ^ nat n) =
             (1 + n) ^ (M1 + M2) * (R1 * R2) ^ nat n"
    by (simp add: power_add power_mult_distrib)
  finally have "(c1 * c2) mod (n * n) = ((1 + n) ^ (M1 + M2) * (R1 * R2) ^ nat n) mod (n * n)" .
  moreover have "coprime (R1 * R2) n" using R by simp
  ultimately show ?thesis unfolding encrypts_def by blast
qed

lemma encrypts_mod: "encrypts n (c mod (n * n)) M = encrypts n c M"
  by (simp add: encrypts_def)

lemma coprime_mod_square:
  fixes x n :: int
  shows "coprime (x mod (n * n)) n \<longleftrightarrow> coprime x n"
proof -
  have "x = (x div (n * n)) * (n * n) + x mod (n * n)" by (simp only: div_mult_mod_eq)
  then have "x = ((x div (n * n)) * n) * n + x mod (n * n)" by (simp only: mult.assoc)
  then have "gcd n x = gcd n (((x div (n * n)) * n) * n + x mod (n * n))" by simp
  also have "\<dots> = gcd n (x mod (n * n))" by (rule gcd_add_mult)
  finally show ?thesis by (simp add: coprime_iff_gcd_eq_1 gcd.commute)
qed

lemma encrypts_coprime:
  assumes "encrypts n c M"
  shows "coprime c n"
proof -
  from assms obtain R where R: "coprime R n"
    and c: "c mod (n * n) = ((1 + n) ^ M * R ^ nat n) mod (n * n)"
    by (auto simp: encrypts_def)
  have "coprime (n + 1) n" by (rule coprime_add_one_left)
  then have "coprime (1 + n) n" by (simp only: add.commute)
  then have "coprime ((1 + n) ^ M * R ^ nat n) n" using R by simp
  then have "coprime (((1 + n) ^ M * R ^ nat n) mod (n * n)) n"
    by (simp only: coprime_mod_square)
  then have "coprime (c mod (n * n)) n" by (simp only: c)
  then show ?thesis by (simp only: coprime_mod_square)
qed

lemma mod_inverse_search_Some:
  assumes "mod_inverse_search b m = Some x"
  shows "(b * x) mod m = 1 mod m"
  using assms unfolding mod_inverse_search_def by (auto simp: find_Some_iff)

lemma number_inverse_Inr:
  assumes "number_inverse u v = Inr x"
  shows "(u * x) mod v = 1 mod v"
  using assms mod_inverse_search_Some [of u v]
  by (auto simp: number_inverse_def split: if_splits option.splits)

lemma resample_q_Some: "resample_q p qs = Some q \<Longrightarrow> q \<in> set qs \<and> q \<noteq> p"
  by (induction qs) (auto split: if_splits)

lemma choose_r_Some: "choose_r n rs = Some r \<Longrightarrow> r \<in> set rs \<and> gcd r n = 1"
  by (induction rs) (auto split: if_splits)

lemma choose_r_exists: "\<exists>d\<in>set rs. gcd d n = 1 \<Longrightarrow> \<exists>r. choose_r n rs = Some r"
proof (induction rs)
  case Nil
  then show ?case by simp
next
  case (Cons a rs)
  show ?case
  proof (cases "gcd a n = 1")
    case True
    then show ?thesis by simp
  next
    case False
    with Cons.prems have "\<exists>d\<in>set rs. gcd d n = 1" by auto
    then have "\<exists>r. choose_r n rs = Some r" by (rule Cons.IH)
    with False show ?thesis by simp
  qed
qed

lemma generate_key_pair_valid:
  assumes "generate_key_pair p qs = Some (Inr kp)"
  obtains q where "q \<in> set qs" and "q \<noteq> p"
    and "kp_n kp = p * q" and "kp_public_key kp = (p * q, p * q + 1)"
    and "kp_lambda_val kp = lcm (p - 1) (q - 1)"
    and "(lcm (p - 1) (q - 1) * kp_mu kp) mod (p * q) = 1 mod (p * q)"
proof -
  from assms obtain q where q: "resample_q p qs = Some q"
    by (auto simp: generate_key_pair_def split: option.splits)
  from assms q obtain mu where
    mu: "number_inverse (lcm (p - 1) (q - 1)) (p * q) = Inr mu"
    and kp: "kp = \<lparr> kp_public_key = (p * q, p * q + 1), kp_private_key = lcm (p - 1) (q - 1),
                     kp_n = p * q, kp_g = p * q + 1, kp_lambda_val = lcm (p - 1) (q - 1),
                     kp_mu = mu \<rparr>"
    by (auto simp: generate_key_pair_def PaillierKeyPair_init_def Let_def split: sum.splits)
  show ?thesis
    using that [of q] resample_q_Some [OF q] number_inverse_Inr [OF mu] by (simp add: kp)
qed

lemma encrypt_result:
  assumes "1 < n" and "0 \<le> m" and "m < n" and "choose_r n draws = Some r"
  shows "encrypt m (n, g) draws =
         Some (Inr ((g ^ nat m mod (n * n) * (r ^ nat n mod (n * n))) mod (n * n)))"
  using assms by (simp add: encrypt_def encrypt_with_def pow_mod_def Let_def)

lemma encrypt_encrypts:
  assumes "1 < n" and "0 \<le> m" and "m < n" and "\<exists>d\<in>set draws. gcd d n = 1"
  shows "\<exists>c. encrypt m (n, n + 1) draws = Some (Inr c) \<and> encrypts n c (nat m)
              \<and> 0 \<le> c \<and> c < n * n"
proof -
  have "\<exists>r. choose_r n draws = Some r" using assms(4) by (rule choose_r_exists)
  then obtain r where r: "choose_r n draws = Some r" by blast
  then have cop: "coprime r n" using choose_r_Some [OF r] by (simp add: coprime_iff_gcd_eq_1)
  define c where "c = ((n + 1) ^ nat m mod (n * n) * (r ^ nat n mod (n * n))) mod (n * n)"
  have "encrypt m (n, n + 1) draws = Some (Inr c)"
    unfolding c_def using assms(1-3) r by (rule encrypt_result)
  moreover have "c mod (n * n) = ((1 + n) ^ nat m * r ^ nat n) mod (n * n)"
    by (simp add: c_def mod_mult_eq add.commute)
  then have "encrypts n c (nat m)" using cop unfolding encrypts_def by blast
  moreover have "0 \<le> c" "c < n * n" using assms(1) by (simp_all add: c_def)
  ultimately show ?thesis by blast
qed

lemma decrypt_encrypts:
  assumes "is_prime p" and "\<forall>q\<in>set qs. is_prime q"
    and "generate_key_pair p qs = Some (Inr kp)"
    and "encrypts (kp_n kp) c M"
  shows "decrypt c kp = Inr (int M mod kp_n kp)"
proof -
  from assms(3) obtain q where q: "q \<in> set qs" "q \<noteq> p"
    and n: "kp_n kp = p * q" and lam: "kp_lambda_val kp = lcm (p - 1) (q - 1)"
    and mu: "(lcm (p - 1) (q - 1) * kp_mu kp) mod (p * q) = 1 mod (p * q)"
    by (rule generate_key_pair_valid)
  have pq: "is_prime p" "is_prime q" "p \<noteq> q" using assms(1,2) q by auto
  have "1 * 1 < p * q" using pq(1,2) by (intro mult_strict_mono) (auto dest: is_prime_gt_1)
  then have mu1: "(lcm (p - 1) (q - 1) * kp_mu kp) mod (p * q) = 1" using mu by simp
  from assms(4) obtain R where R: "coprime R (p * q)"
    and c: "c mod (p * q * (p * q)) = ((1 + p * q) ^ M * R ^ nat (p * q)) mod (p * q * (p * q))"
    by (auto simp: encrypts_def n)
  show ?thesis using decrypt_core [OF pq n lam mu1 R c] by (simp add: n)
qed

lemma key_modulus_gt_1:
  assumes "is_prime p" and "\<forall>q\<in>set qs. is_prime q"
    and "generate_key_pair p qs = Some (Inr kp)"
  shows "1 < kp_n kp" and "kp_public_key kp = (kp_n kp, kp_n kp + 1)"
proof -
  from assms(3) obtain q where q: "q \<in> set qs"
    and n: "kp_n kp = p * q" and pk: "kp_public_key kp = (p * q, p * q + 1)"
    by (rule generate_key_pair_valid)
  have "1 * 1 < p * q" using assms(1,2) q by (intro mult_strict_mono) (auto dest: is_prime_gt_1)
  then show "1 < kp_n kp" by (simp add: n)
  show "kp_public_key kp = (kp_n kp, kp_n kp + 1)" by (simp add: n pk)
qed

text \<open>
  C1: for a key pair returned by \<open>generate_key_pair\<close> from primes and every message
  \<open>0 \<le> m < n\<close>, \<open>encrypt\<close> returns a ciphertext as soon as one of the random draws is
  coprime to \<open>n\<close>, and \<open>decrypt\<close> of that ciphertext returns exactly \<open>m\<close>, whatever the
  draws are.
\<close>

theorem decrypt_encrypt_roundtrip:
  assumes "is_prime p" and "\<forall>q\<in>set qs. is_prime q"
    and "generate_key_pair p qs = Some (Inr kp)"
    and "0 \<le> m" and "m < kp_n kp"
    and "\<exists>r\<in>set draws. gcd r (kp_n kp) = 1"
  shows "\<exists>c. encrypt m (kp_public_key kp) draws = Some (Inr c) \<and> decrypt c kp = Inr m"
proof -
  have n: "1 < kp_n kp" and pk: "kp_public_key kp = (kp_n kp, kp_n kp + 1)"
    using assms(1-3) by (rule key_modulus_gt_1)+
  from encrypt_encrypts [OF n assms(4-6)] obtain c where
    c: "encrypt m (kp_n kp, kp_n kp + 1) draws = Some (Inr c)" "encrypts (kp_n kp) c (nat m)"
    by blast
  have "decrypt c kp = Inr (int (nat m) mod kp_n kp)"
    using assms(1-3) c(2) by (rule decrypt_encrypts)
  then have "decrypt c kp = Inr m" using assms(4,5) by simp
  with c(1) show ?thesis by (simp add: pk)
qed

theorem decrypt_encrypt_roundtrip_witness:
  "\<exists>c. encrypt 7 (15, 16) [5, 2] = Some (Inr c) \<and>
       decrypt c \<lparr> kp_public_key = (15, 16), kp_private_key = 4, kp_n = 15, kp_g = 16,
                    kp_lambda_val = 4, kp_mu = 4 \<rparr> = Inr 7"
proof -
  let ?kp = "\<lparr> kp_public_key = (15, 16), kp_private_key = 4, kp_n = 15, kp_g = 16,
                kp_lambda_val = 4, kp_mu = 4 \<rparr>"
  have 1: "is_prime 3" by code_simp
  have 2: "\<forall>q\<in>set [3, 5]. is_prime q" by code_simp
  have 3: "generate_key_pair 3 [3, 5] = Some (Inr ?kp)" by code_simp
  have 4: "\<exists>r\<in>set [5, 2]. gcd r (kp_n ?kp) = (1::int)" by simp
  show ?thesis using decrypt_encrypt_roundtrip [OF 1 2 3 _ _ 4, of 7] by simp
qed


section \<open>Homomorphic addition, validity check and aggregation\<close>

lemma encrypt_Some_encrypts:
  assumes "1 < n" and "encrypt m (n, n + 1) draws = Some (Inr c)"
  shows "encrypts n c (nat m) \<and> 0 \<le> c \<and> c < n * n \<and> 0 \<le> m \<and> m < n"
proof -
  from assms have m: "0 \<le> m" "m < n"
    by (auto simp: encrypt_def split: if_splits)
  from assms m obtain r where r: "choose_r n draws = Some r"
    by (auto simp: encrypt_def split: if_splits option.splits)
  then have cop: "coprime r n" using choose_r_Some [OF r] by (simp add: coprime_iff_gcd_eq_1)
  have "encrypt m (n, n + 1) draws =
        Some (Inr (((n + 1) ^ nat m mod (n * n) * (r ^ nat n mod (n * n))) mod (n * n)))"
    using assms(1) m r by (rule encrypt_result)
  with assms(2) have c: "c = ((n + 1) ^ nat m mod (n * n) * (r ^ nat n mod (n * n))) mod (n * n)"
    by simp
  then have "c mod (n * n) = ((1 + n) ^ nat m * r ^ nat n) mod (n * n)"
    by (simp add: mod_mult_eq add.commute)
  then have "encrypts n c (nat m)" using cop unfolding encrypts_def by blast
  moreover have "0 \<le> c" "c < n * n" using assms(1) by (simp_all add: c)
  ultimately show ?thesis using m by blast
qed

lemma add_ciphertexts_result:
  "n \<noteq> 0 \<Longrightarrow> add_ciphertexts c1 c2 (n, g) = Inr ((c1 * c2) mod (n * n))"
  by (simp add: add_ciphertexts_def)

text \<open>
  C2: for a generated key pair and plaintexts \<open>m1\<close>, \<open>m2\<close> in \<open>[0, n)\<close>, both encryptions
  return, \<open>add_ciphertexts\<close> of the two ciphertexts returns, and its result decrypts to
  \<open>(m1 + m2) mod n\<close>, whatever the random draws of the two encryptions are.
\<close>

theorem homomorphic_addition:
  assumes "is_prime p" and "\<forall>q\<in>set qs. is_prime q"
    and "generate_key_pair p qs = Some (Inr kp)"
    and "0 \<le> m1" and "m1 < kp_n kp" and "0 \<le> m2" and "m2 < kp_n kp"
    and "\<exists>r\<in>set draws1. gcd r (kp_n kp) = 1"
    and "\<exists>r\<in>set draws2. gcd r (kp_n kp) = 1"
  shows "\<exists>c1 c2 c. encrypt m1 (kp_public_key kp) draws1 = Some (Inr c1) \<and>
                   encrypt m2 (kp_public_key kp) draws2 = Some (Inr c2) \<and>
                   add_ciphertexts c1 c2 (kp_public_key kp) = Inr c \<and>
                   decrypt c kp = Inr ((m1 + m2) mod kp_n kp)"
proof -
  have n: "1 < kp_n kp" and pk: "kp_public_key kp = (kp_n kp, kp_n kp + 1)"
    using assms(1-3) by (rule key_modulus_gt_1)+
  from encrypt_encrypts [OF n assms(4,5,8)] obtain c1 where
    c1: "encrypt m1 (kp_n kp, kp_n kp + 1) draws1 = Some (Inr c1)" "encrypts (kp_n kp) c1 (nat m1)"
    by blast
  from encrypt_encrypts [OF n assms(6,7,9)] obtain c2 where
    c2: "encrypt m2 (kp_n kp, kp_n kp + 1) draws2 = Some (Inr c2)" "encrypts (kp_n kp) c2 (nat m2)"
    by blast
  define c where "c = (c1 * c2) mod (kp_n kp * kp_n kp)"
  have add: "add_ciphertexts c1 c2 (kp_n kp, kp_n kp + 1) = Inr c"
    using n by (simp add: add_ciphertexts_result c_def)
  have "encrypts (kp_n kp) c (nat m1 + nat m2)"
    unfolding c_def encrypts_mod using c1(2) c2(2) by (rule encrypts_mult)
  with assms(1-3) have "decrypt c kp = Inr (int (nat m1 + nat m2) mod kp_n kp)"
    by (rule decrypt_encrypts)
  then have "decrypt c kp = Inr ((m1 + m2) mod kp_n kp)" using assms(4,6) by simp
  with c1(1) c2(1) add show ?thesis unfolding pk by blast
qed

theorem homomorphic_addition_witness:
  "\<exists>c1 c2 c. encrypt 7 (15, 16) [5, 2] = Some (Inr c1) \<and>
             encrypt 11 (15, 16) [4] = Some (Inr c2) \<and>
             add_ciphertexts c1 c2 (15, 16) = Inr c \<and>
             decrypt c \<lparr> kp_public_key = (15, 16), kp_private_key = 4, kp_n = 15, kp_g = 16,
                          kp_lambda_val = 4, kp_mu = 4 \<rparr> = Inr 3"
proof -
  let ?kp = "\<lparr> kp_public_key = (15, 16), kp_private_key = 4, kp_n = 15, kp_g = 16,
                kp_lambda_val = 4, kp_mu = 4 \<rparr>"
  have 1: "is_prime 3" by code_simp
  have 2: "\<forall>q\<in>set [3, 5]. is_prime q" by code_simp
  have 3: "generate_key_pair 3 [3, 5] = Some (Inr ?kp)" by code_simp
  have 4: "\<exists>r\<in>set [5, 2]. gcd r (kp_n ?kp) = (1::int)" by simp
  have 5: "\<exists>r\<in>set [4]. gcd r (kp_n ?kp) = (1::int)" by code_simp
  show ?thesis using homomorphic_addition [OF 1 2 3 _ _ _ _ 4 5, of 7 11] by simp
qed

lemma verify_vote_encryption_iff:
  "verify_vote_encryption c (n, g) \<longleftrightarrow> 0 < c \<and> c < n * n \<and> gcd c n = 1"
  by (auto simp: verify_vote_encryption_def Let_def)

text \<open>
  C9: \<open>verify_vote_encryption\<close> is false for every integer outside \<open>[1, n\<^sup>2)\<close>, and a
  ciphertext freshly returned by \<open>encrypt\<close> under a generated key lies in \<open>[1, n\<^sup>2)\<close>, is
  coprime to \<open>n\<close> and passes the check.
\<close>

theorem verify_vote_encryption_range_and_fresh:
  "(c' \<le> 0 \<or> n' * n' \<le> c' \<longrightarrow> \<not> verify_vote_encryption c' (n', g')) \<and>
   (is_prime p \<and> (\<forall>q\<in>set qs. is_prime q) \<and> generate_key_pair p qs = Some (Inr kp) \<and>
    0 \<le> m \<and> m < kp_n kp \<and> (\<exists>r\<in>set draws. gcd r (kp_n kp) = 1) \<longrightarrow>
    (\<exists>c. encrypt m (kp_public_key kp) draws = Some (Inr c) \<and>
         1 \<le> c \<and> c < kp_n kp * kp_n kp \<and> gcd c (kp_n kp) = 1 \<and>
         verify_vote_encryption c (kp_public_key kp)))"
proof (intro conjI impI)
  assume "c' \<le> 0 \<or> n' * n' \<le> c'"
  then show "\<not> verify_vote_encryption c' (n', g')"
    by (auto simp: verify_vote_encryption_iff)
next
  assume a: "is_prime p \<and> (\<forall>q\<in>set qs. is_prime q) \<and> generate_key_pair p qs = Some (Inr kp) \<and>
    0 \<le> m \<and> m < kp_n kp \<and> (\<exists>r\<in>set draws. gcd r (kp_n kp) = 1)"
  then have k: "is_prime p" "\<forall>q\<in>set qs. is_prime q" "generate_key_pair p qs = Some (Inr kp)"
    and m: "0 \<le> m" "m < kp_n kp" "\<exists>r\<in>set draws. gcd r (kp_n kp) = 1"
    by simp_all
  have n: "1 < kp_n kp" and pk: "kp_public_key kp = (kp_n kp, kp_n kp + 1)"
    using k by (rule key_modulus_gt_1)+
  from encrypt_encrypts [OF n m] obtain c where
    c: "encrypt m (kp_n kp, kp_n kp + 1) draws = Some (Inr c)" "encrypts (kp_n kp) c (nat m)"
       "0 \<le> c" "c < kp_n kp * kp_n kp"
    by blast
  have cop: "coprime c (kp_n kp)" using c(2) by (rule encrypts_coprime)
  have "c \<noteq> 0"
  proof
    assume "c = 0"
    with cop have "is_unit (kp_n kp)" by simp
    with n show False by simp
  qed
  with c(3) have "1 \<le> c" by simp
  moreover have "gcd c (kp_n kp) = 1" using cop by (simp add: coprime_iff_gcd_eq_1)
  ultimately show "\<exists>c. encrypt m (kp_public_key kp) draws = Some (Inr c) \<and>
         1 \<le> c \<and> c < kp_n kp * kp_n kp \<and> gcd c (kp_n kp) = 1 \<and>
         verify_vote_encryption c (kp_public_key kp)"
    using c(1,4) unfolding pk by (auto simp: verify_vote_encryption_iff)
qed

theorem verify_vote_encryption_range_and_fresh_witness:
  "\<not> verify_vote_encryption 225 (15, 16) \<and> \<not> verify_vote_encryption (- 4) (15, 16) \<and>
   (\<exists>c. encrypt 7 (15, 16) [5, 2] = Some (Inr c) \<and> 1 \<le> c \<and> c < 225 \<and> gcd c 15 = 1 \<and>
        verify_vote_encryption c (15, 16))"
proof -
  let ?kp = "\<lparr> kp_public_key = (15, 16), kp_private_key = 4, kp_n = 15, kp_g = 16,
                kp_lambda_val = 4, kp_mu = 4 \<rparr>"
  have 1: "is_prime 3" by code_simp
  have 2: "\<forall>q\<in>set [3, 5]. is_prime q" by code_simp
  have 3: "generate_key_pair 3 [3, 5] = Some (Inr ?kp)" by code_simp
  have 4: "\<exists>r\<in>set [5, 2]. gcd r (kp_n ?kp) = (1::int)" by simp
  show ?thesis
    using verify_vote_encryption_range_and_fresh [of 225 15 16 3 "[3, 5]" ?kp 7 "[5, 2]"]
      verify_vote_encryption_range_and_fresh [of "- 4" 15 16 3 "[3, 5]" ?kp 7 "[5, 2]"]
      1 2 3 4 by simp
qed


lemma aggregate_loop_Inl: "aggregate_loop pk votes (Inl e) = Inl e"
  by (cases votes) simp_all

lemma aggregate_loop_closed:
  "aggregate_loop (n, g) votes (Inr r) =
     (if votes = [] then Inr r
      else if n = 0 then Inl ZeroDivisionError
      else Inr ((r * prod_list votes) mod (n * n)))"
proof (induction votes arbitrary: r)
  case Nil
  show ?case by simp
next
  case (Cons v vs)
  show ?case
  proof (cases "n = 0")
    case True
    then show ?thesis by (simp add: add_ciphertexts_def aggregate_loop_Inl)
  next
    case False
    have "(r * v) mod (n * n) * prod_list vs mod (n * n) = r * (v * prod_list vs) mod (n * n)"
      by (simp add: mod_mult_left_eq mult.assoc)
    with False show ?thesis by (simp add: add_ciphertexts_def Cons.IH)
  qed
qed

lemma aggregate_votes_closed:
  "aggregate_votes votes (n, g) =
     (if votes = [] then Inr 0
      else if length votes = 1 then Inr (prod_list votes)
      else if n = 0 then Inl ZeroDivisionError
      else Inr (prod_list votes mod (n * n)))"
proof (cases votes)
  case Nil
  then show ?thesis by (simp add: aggregate_votes_def)
next
  case (Cons v vs)
  then show ?thesis by (simp add: aggregate_votes_def aggregate_loop_closed)
qed

lemma aggregate_votes_permutation:
  assumes "mset votes' = mset votes"
  shows "aggregate_votes votes' pk = aggregate_votes votes pk"
proof -
  obtain n g where pk: "pk = (n, g)" by (cases pk)
  have "length votes' = length votes" using assms by (rule mset_eq_length)
  moreover have "prod_list votes' = prod_list votes"
    using assms by (metis prod_mset_prod_list)
  moreover have "votes' = [] \<longleftrightarrow> votes = []" using assms by (metis mset_zero_iff)
  ultimately show ?thesis unfolding pk aggregate_votes_closed by simp
qed

lemma prod_list_encrypts:
  assumes "list_all2 (encrypts n) votes Ms" and "votes \<noteq> []"
  shows "encrypts n (prod_list votes) (sum_list Ms)"
  using assms
proof (induction rule: list_all2_induct)
  case Nil
  then show ?case by simp
next
  case (Cons c cs M Ms)
  show ?case
  proof (cases "cs = []")
    case True
    with Cons.hyps show ?thesis by simp
  next
    case False
    then have "encrypts n (prod_list cs) (sum_list Ms)" by (rule Cons.IH)
    with Cons.hyps(1) have "encrypts n (c * prod_list cs) (M + sum_list Ms)"
      by (rule encrypts_mult)
    then show ?thesis by simp
  qed
qed

lemma aggregate_votes_encrypts:
  assumes "n \<noteq> 0" and "list_all2 (encrypts n) votes Ms" and "votes \<noteq> []"
  shows "\<exists>c. aggregate_votes votes (n, g) = Inr c \<and> encrypts n c (sum_list Ms)"
proof -
  have "encrypts n (prod_list votes) (sum_list Ms)"
    using assms(2,3) by (rule prod_list_encrypts)
  then show ?thesis
    using assms(1,3) by (simp add: aggregate_votes_closed encrypts_mod)
qed

text \<open>
  C7: \<open>add_ciphertexts\<close> is commutative and associative for every public key and all
  integers (with \<open>n = 0\<close> both sides raise the same error); \<open>aggregate_votes\<close> returns
  the same result for every permutation of its input, so the results decrypt alike; and for
  a non-empty list of ciphertexts returned by \<open>encrypt\<close> under a generated key, every
  permutation aggregates to a ciphertext that decrypts to the sum of the plaintexts modulo
  \<open>n\<close>.
\<close>

theorem add_ciphertexts_comm_assoc_aggregate:
  "add_ciphertexts c1 c2 pk = add_ciphertexts c2 c1 pk \<and>
   (case add_ciphertexts c1 c2 pk of Inl e \<Rightarrow> Inl e | Inr a \<Rightarrow> add_ciphertexts a c3 pk) =
   (case add_ciphertexts c2 c3 pk of Inl e \<Rightarrow> Inl e | Inr b \<Rightarrow> add_ciphertexts c1 b pk) \<and>
   (mset votes' = mset votes \<longrightarrow>
      aggregate_votes votes' pk = aggregate_votes votes pk \<and>
      (case aggregate_votes votes' pk of Inl e \<Rightarrow> Inl e | Inr c \<Rightarrow> decrypt c key_pair) =
      (case aggregate_votes votes pk of Inl e \<Rightarrow> Inl e | Inr c \<Rightarrow> decrypt c key_pair)) \<and>
   (is_prime p \<and> (\<forall>q\<in>set qs. is_prime q) \<and> generate_key_pair p qs = Some (Inr kp) \<and>
    list_all2 (\<lambda>c m. \<exists>draws. encrypt m (kp_public_key kp) draws = Some (Inr c)) encrypted ms \<and>
    encrypted \<noteq> [] \<and> mset encrypted' = mset encrypted \<longrightarrow>
      (\<exists>c. aggregate_votes encrypted' (kp_public_key kp) = Inr c \<and>
           decrypt c kp = Inr (sum_list ms mod kp_n kp)))"
proof (intro conjI impI)
  show "add_ciphertexts c1 c2 pk = add_ciphertexts c2 c1 pk"
    by (simp add: add_ciphertexts_def mult.commute split: prod.splits)
next
  obtain n g where pk: "pk = (n, g)" by (cases pk)
  have "(c1 * c2) mod (n * n) * c3 mod (n * n) = c1 * ((c2 * c3) mod (n * n)) mod (n * n)"
    by (simp add: mod_mult_left_eq mod_mult_right_eq mult.assoc)
  then show "(case add_ciphertexts c1 c2 pk of Inl e \<Rightarrow> Inl e | Inr a \<Rightarrow> add_ciphertexts a c3 pk) =
        (case add_ciphertexts c2 c3 pk of Inl e \<Rightarrow> Inl e | Inr b \<Rightarrow> add_ciphertexts c1 b pk)"
    by (simp add: pk add_ciphertexts_def)
next
  assume "mset votes' = mset votes"
  then show "aggregate_votes votes' pk = aggregate_votes votes pk"
    by (rule aggregate_votes_permutation)
next
  assume "mset votes' = mset votes"
  then have "aggregate_votes votes' pk = aggregate_votes votes pk"
    by (rule aggregate_votes_permutation)
  then show "(case aggregate_votes votes' pk of Inl e \<Rightarrow> Inl e | Inr c \<Rightarrow> decrypt c key_pair) =
      (case aggregate_votes votes pk of Inl e \<Rightarrow> Inl e | Inr c \<Rightarrow> decrypt c key_pair)"
    by simp
next
  assume a: "is_prime p \<and> (\<forall>q\<in>set qs. is_prime q) \<and> generate_key_pair p qs = Some (Inr kp) \<and>
    list_all2 (\<lambda>c m. \<exists>draws. encrypt m (kp_public_key kp) draws = Some (Inr c)) encrypted ms \<and>
    encrypted \<noteq> [] \<and> mset encrypted' = mset encrypted"
  then have k: "is_prime p" "\<forall>q\<in>set qs. is_prime q" "generate_key_pair p qs = Some (Inr kp)"
    and enc: "list_all2 (\<lambda>c m. \<exists>draws. encrypt m (kp_public_key kp) draws = Some (Inr c)) encrypted ms"
    and ne: "encrypted \<noteq> []" and perm: "mset encrypted' = mset encrypted"
    by simp_all
  have n: "1 < kp_n kp" and pk: "kp_public_key kp = (kp_n kp, kp_n kp + 1)"
    using k by (rule key_modulus_gt_1)+
  have each: "encrypts (kp_n kp) c (nat m) \<and> 0 \<le> m"
    if "\<exists>draws. encrypt m (kp_public_key kp) draws = Some (Inr c)" for c m
    using that encrypt_Some_encrypts [OF n] unfolding pk by blast
  have "list_all2 (\<lambda>c m. encrypts (kp_n kp) c (nat m) \<and> 0 \<le> m) encrypted ms"
    by (rule list_all2_mono [OF enc]) (rule each)
  then have l2: "list_all2 (encrypts (kp_n kp)) encrypted (map nat ms)" and nonneg: "\<forall>m\<in>set ms. 0 \<le> m"
    by (auto simp: list_all2_conv_all_nth in_set_conv_nth)
  have s: "int (sum_list (map nat ms)) = sum_list ms"
    using nonneg by (induction ms) simp_all
  from n have "kp_n kp \<noteq> 0" by simp
  from aggregate_votes_encrypts [OF this l2 ne] obtain c where
    c: "aggregate_votes encrypted (kp_n kp, kp_n kp + 1) = Inr c"
       "encrypts (kp_n kp) c (sum_list (map nat ms))"
    by blast
  have "decrypt c kp = Inr (int (sum_list (map nat ms)) mod kp_n kp)"
    using k c(2) by (rule decrypt_encrypts)
  then have "decrypt c kp = Inr (sum_list ms mod kp_n kp)" by (simp only: s)
  moreover have "aggregate_votes encrypted' (kp_public_key kp) = Inr c"
    using aggregate_votes_permutation [OF perm] c(1) by (simp add: pk)
  ultimately show "\<exists>c. aggregate_votes encrypted' (kp_public_key kp) = Inr c \<and>
           decrypt c kp = Inr (sum_list ms mod kp_n kp)"
    by blast
qed


theorem add_ciphertexts_comm_assoc_aggregate_witness:
  "aggregate_votes [3, 2] (15, 16) = aggregate_votes [2, 3] (15, 16) \<and>
   (\<exists>c. aggregate_votes [184, 83] (15, 16) = Inr c \<and>
        decrypt c \<lparr> kp_public_key = (15, 16), kp_private_key = 4, kp_n = 15, kp_g = 16,
                     kp_lambda_val = 4, kp_mu = 4 \<rparr> = Inr 3)"
proof -
  let ?kp = "\<lparr> kp_public_key = (15, 16), kp_private_key = 4, kp_n = 15, kp_g = 16,
                kp_lambda_val = 4, kp_mu = 4 \<rparr>"
  have 1: "is_prime 3" by code_simp
  have 2: "\<forall>q\<in>set [3, 5]. is_prime q" by code_simp
  have 3: "generate_key_pair 3 [3, 5] = Some (Inr ?kp)" by code_simp
  have e1: "encrypt 7 (15, 16) [5, 2] = Some (Inr 83)" by code_simp
  have e2: "encrypt 11 (15, 16) [4] = Some (Inr 184)" by code_simp
  have 4: "list_all2 (\<lambda>c m. \<exists>draws. encrypt m (kp_public_key ?kp) draws = Some (Inr c))
             [83, 184] [7, 11]"
    using e1 e2 by auto
  have 5: "mset [3, 2 :: int] = mset [2, 3]" by simp
  have 6: "mset [184, 83 :: int] = mset [83, 184]" by simp
  show ?thesis
    using add_ciphertexts_comm_assoc_aggregate
      [of 2 3 "(15, 16)" 4 "[3, 2]" "[2, 3]" ?kp 3 "[3, 5]" ?kp "[83, 184]" "[7, 11]" "[184, 83]"]
      1 2 3 4 5 6
    by simp
qed

lemma prod_list_coprime:
  fixes n :: int
  shows "\<forall>c\<in>set votes. coprime c n \<Longrightarrow> coprime (prod_list votes) n"
  by (induction votes) simp_all

text \<open>
  C8, as amended: \<open>aggregate_votes\<close> returns 0 for the empty list; for a list whose elements
  all pass \<open>verify_vote_encryption\<close> it returns 0 only when the list is empty;
  \<open>verify_vote_encryption\<close> rejects 0 for every public key.  Nothing else marks the
  sentinel: \<open>decrypt\<close> accepts 0 and, for \<open>n > 0\<close> and \<open>lambda > 0\<close>, returns
  \<open>(- mu) mod n\<close>.
\<close>

theorem aggregate_votes_zero_sentinel:
  "aggregate_votes [] pk = Inr 0 \<and>
   ((\<forall>c\<in>set votes. verify_vote_encryption c pk) \<longrightarrow>
      (aggregate_votes votes pk = Inr 0 \<longleftrightarrow> votes = [])) \<and>
   \<not> verify_vote_encryption 0 pk \<and>
   (0 < kp_n kp \<and> 0 < kp_lambda_val kp \<longrightarrow>
      decrypt 0 kp = Inr ((- kp_mu kp) mod kp_n kp))"
proof (intro conjI impI)
  show "aggregate_votes [] pk = Inr 0" by (simp add: aggregate_votes_def)
next
  obtain n g where pk: "pk = (n, g)" by (cases pk)
  assume valid: "\<forall>c\<in>set votes. verify_vote_encryption c pk"
  show "aggregate_votes votes pk = Inr 0 \<longleftrightarrow> votes = []"
  proof (cases votes)
    case Nil
    then show ?thesis by (simp add: aggregate_votes_def)
  next
    case (Cons v vs)
    from valid have v: "0 < v" "v < n * n"
      and cop: "\<forall>c\<in>set votes. coprime c n"
      by (auto simp: Cons pk verify_vote_encryption_iff coprime_iff_gcd_eq_1)
    from v have n1: "1 < n * n" by simp
    then have n0: "n \<noteq> 0" by auto
    have "coprime (prod_list votes) n" using cop by (rule prod_list_coprime)
    then have c: "coprime (prod_list votes mod (n * n)) n" by (simp only: coprime_mod_square)
    have nz: "prod_list votes mod (n * n) \<noteq> 0"
    proof
      assume "prod_list votes mod (n * n) = 0"
      with c have "is_unit n" by simp
      then have "\<bar>n\<bar> = 1" by (simp only: zdvd1_eq)
      then have "n = 1 \<or> n = - 1" by linarith
      then have "n * n = 1" by auto
      with n1 show False by simp
    qed
    show ?thesis
    proof (cases "vs = []")
      case True
      then show ?thesis using v by (simp add: Cons aggregate_votes_def)
    next
      case False
      then show ?thesis using nz n0 by (simp add: pk aggregate_votes_closed Cons)
    qed
  qed
next
  show "\<not> verify_vote_encryption 0 pk"
    by (cases pk) (simp add: verify_vote_encryption_iff)
next
  assume a: "0 < kp_n kp \<and> 0 < kp_lambda_val kp"
  then have pm: "pow_mod 0 (kp_lambda_val kp) (kp_n kp * kp_n kp) = Inr 0"
    by (simp add: pow_mod_def power_0_left)
  have d: "(- 1) div kp_n kp = - 1" using a by (simp add: div_eq_minus1)
  show "decrypt 0 kp = Inr ((- kp_mu kp) mod kp_n kp)"
    using a by (simp add: decrypt_def pm Let_def d)
qed

theorem aggregate_votes_zero_sentinel_witness:
  "aggregate_votes [83, 184] (15, 16) \<noteq> Inr 0 \<and>
   decrypt 0 \<lparr> kp_public_key = (15, 16), kp_private_key = 4, kp_n = 15, kp_g = 16,
                kp_lambda_val = 4, kp_mu = 4 \<rparr> = Inr 11"
proof -
  let ?kp = "\<lparr> kp_public_key = (15, 16), kp_private_key = 4, kp_n = 15, kp_g = 16,
                kp_lambda_val = 4, kp_mu = 4 \<rparr>"
  have 1: "\<forall>c\<in>set [83, 184]. verify_vote_encryption c (15, 16)" by code_simp
  have 2: "0 < kp_n ?kp \<and> 0 < kp_lambda_val ?kp" by simp
  show ?thesis
    using aggregate_votes_zero_sentinel [of "(15, 16)" "[83, 184]" ?kp] 1 2 by simp
qed

text \<open>
  The claim as stated fails: a non-empty list can aggregate to 0, and decrypting 0 returns
  a number without any error.
\<close>

theorem aggregate_votes_zero_sentinel_counterexample:
  "aggregate_votes [15, 15] (15, 16) = Inr 0 \<and> [15, 15 :: int] \<noteq> [] \<and>
   decrypt 0 \<lparr> kp_public_key = (15, 16), kp_private_key = 4, kp_n = 15, kp_g = 16,
                kp_lambda_val = 4, kp_mu = 4 \<rparr> = Inr 11"
  by code_simp

text \<open>
  C5: the two implementations of \<open>combine_partial_decryptions\<close> differ on the same input:
  the one of \<open>ThresholdPaillier\<close> returns \<open>L(combined) * mu mod n\<close>, the one of
  \<open>ThresholdDecryption\<close> returns \<open>L(combined)\<close> alone.
\<close>

theorem combine_partial_decryptions_diverge:
  "combine_partial_decryptions [16]
     \<lparr> kp_public_key = (15, 16), kp_private_key = 4, kp_n = 15, kp_g = 16,
       kp_lambda_val = 4, kp_mu = 4 \<rparr> = Inr 4 \<and>
   td_combine_partial_decryptions [16] (15, 16) = Inr 1"
  by code_simp

text \<open>
  C6: \<open>verify_share\<close> compares the candidate's value with the reconstructed secret, not
  with the polynomial at the candidate's own \<open>x\<close>: under the default recursion limit a
  share generated together with the others is rejected, and a pair carrying the secret
  itself is accepted.
\<close>

theorem verify_share_rejects_consistent_share:
  "generate_shares \<lparr> ss_total_shares = 3, ss_threshold = 2, ss_prime = 7 \<rparr> 3 [1] =
     Inr [(1, 4), (2, 5), (3, 6)] \<and>
   verify_share 1000 \<lparr> ss_total_shares = 3, ss_threshold = 2, ss_prime = 7 \<rparr> (1, 4) [(2, 5), (3, 6)] = False \<and>
   verify_share 1000 \<lparr> ss_total_shares = 3, ss_threshold = 2, ss_prime = 7 \<rparr> (1, 3) [(2, 5), (3, 6)] = True"
  by code_simp

text \<open>
  C4: with threshold 2 over the prime 3, the value 0 of share 1 is produced by no
  coefficient draw when the secret is 0 and by one draw when the secret is 1, so a single
  share does depend on the secret.
\<close>

theorem share_distribution_depends_on_secret:
  "outcome_count \<lparr> ss_total_shares = 2, ss_threshold = 2, ss_prime = 3 \<rparr> 0 [1] (Inr [Some 0]) = 0 \<and>
   outcome_count \<lparr> ss_total_shares = 2, ss_threshold = 2, ss_prime = 3 \<rparr> 1 [1] (Inr [Some 0]) = 1"
  by code_simp


section \<open>Shamir reconstruction by Lagrange interpolation\<close>

lemma length_pquot: "length (pquot a cs) = length cs - 1"
  by (induction cs) auto

lemma peval_pquot: "peval cs x = peval cs a + (x - a) * peval (pquot a cs) x"
proof (induction cs)
  case Nil
  show ?case by simp
next
  case (Cons c cs)
  show ?case
  proof (cases "cs = []")
    case True
    then show ?thesis by simp
  next
    case False
    have "peval (c # cs) x = c + x * (peval cs a + (x - a) * peval (pquot a cs) x)"
      using Cons.IH by simp
    also have "\<dots> = (c + a * peval cs a) + (x - a) * (peval cs a + x * peval (pquot a cs) x)"
      by (simp add: algebra_simps)
    finally show ?thesis using False by simp
  qed
qed

lemma poly_roots_vanish:
  assumes "is_prime P"
  shows "length cs \<le> length rs \<Longrightarrow> \<forall>r\<in>set rs. P dvd peval cs r \<Longrightarrow>
         distinct (map (\<lambda>r. r mod P) rs) \<Longrightarrow> P dvd peval cs x"
proof (induction rs arbitrary: cs x)
  case Nil
  then show ?case by simp
next
  case (Cons a rs)
  define Q where "Q = pquot a cs"
  have len: "length Q \<le> length rs" using Cons.prems(1) by (simp add: Q_def length_pquot)
  have a: "P dvd peval cs a" using Cons.prems(2) by simp
  have roots: "\<forall>r\<in>set rs. P dvd peval Q r"
  proof
    fix r assume r: "r \<in> set rs"
    then have "P dvd peval cs r" using Cons.prems(2) by simp
    then have "P dvd peval cs a + (r - a) * peval Q r"
      using peval_pquot [of cs r a] by (simp add: Q_def)
    with a have "P dvd (r - a) * peval Q r" by (simp add: dvd_add_right_iff)
    moreover have "a mod P \<notin> (\<lambda>r. r mod P) ` set rs" using Cons.prems(3) by simp
    then have "r mod P \<noteq> a mod P" using r by (metis imageI)
    then have "\<not> P dvd r - a" by (simp add: mod_eq_dvd_iff)
    ultimately show "P dvd peval Q r" using assms is_prime_dvd_mult by blast
  qed
  have "distinct (map (\<lambda>r. r mod P) rs)" using Cons.prems(3) by simp
  with len roots have "P dvd peval Q x" by (rule Cons.IH)
  then have "P dvd peval cs a + (x - a) * peval Q x" using a by simp
  then show ?case using peval_pquot [of cs x a] by (simp add: Q_def)
qed

lemma polyfun_roots_vanish:
  assumes "is_prime P" and "polyfun (length rs) F" and "\<forall>r\<in>set rs. P dvd F r"
    and "distinct (map (\<lambda>r. r mod P) rs)"
  shows "P dvd F x"
proof -
  from assms(2) obtain cs where cs: "length cs \<le> length rs" "\<forall>x. F x = peval cs x"
    by (auto simp: polyfun_def)
  have "P dvd peval cs x"
    using assms(1) cs(1) _ assms(4) by (rule poly_roots_vanish) (use assms(3) cs(2) in simp)
  then show ?thesis by (simp add: cs(2))
qed

lemma polyfun_mono: "polyfun k F \<Longrightarrow> k \<le> k' \<Longrightarrow> polyfun k' F"
  unfolding polyfun_def by (meson order_trans)

lemma polyfun_peval: "length cs \<le> k \<Longrightarrow> polyfun k (peval cs)"
  unfolding polyfun_def by blast

lemma polyfun_zero: "polyfun k (\<lambda>x. 0)"
  unfolding polyfun_def by (rule exI [of _ "[]"]) simp

lemma polyfun_const: "0 < k \<Longrightarrow> polyfun k (\<lambda>x. c)"
  unfolding polyfun_def by (rule exI [of _ "[c]"]) auto

lemma peval_add_ex:
  "\<exists>cs. length cs \<le> max (length as) (length bs) \<and> (\<forall>x. peval cs x = peval as x + peval bs x)"
proof (induction as arbitrary: bs)
  case Nil
  show ?case by (rule exI [of _ bs]) simp
next
  case (Cons a as)
  show ?case
  proof (cases bs)
    case Nil
    show ?thesis by (rule exI [of _ "a # as"]) (simp add: Nil)
  next
    case (Cons b bs')
    from Cons.IH [of bs'] obtain cs where
      cs: "length cs \<le> max (length as) (length bs')" "\<forall>x. peval cs x = peval as x + peval bs' x"
      by blast
    show ?thesis
      by (rule exI [of _ "(a + b) # cs"]) (use cs in \<open>simp add: Cons algebra_simps\<close>)
  qed
qed

lemma polyfun_add:
  assumes "polyfun k F" and "polyfun k G"
  shows "polyfun k (\<lambda>x. F x + G x)"
proof -
  from assms obtain as bs where
    as: "length as \<le> k" "\<forall>x. F x = peval as x" and bs: "length bs \<le> k" "\<forall>x. G x = peval bs x"
    by (auto simp: polyfun_def)
  from peval_add_ex [of as bs] obtain cs where
    cs: "length cs \<le> max (length as) (length bs)" "\<forall>x. peval cs x = peval as x + peval bs x"
    by blast
  show ?thesis unfolding polyfun_def
    by (rule exI [of _ cs]) (use as bs cs in simp)
qed

lemma peval_smult: "peval (map ((*) c) cs) x = c * peval cs x"
  by (induction cs) (simp_all add: algebra_simps)

lemma polyfun_smult:
  assumes "polyfun k F"
  shows "polyfun k (\<lambda>x. c * F x)"
proof -
  from assms obtain cs where cs: "length cs \<le> k" "\<forall>x. F x = peval cs x"
    by (auto simp: polyfun_def)
  show ?thesis unfolding polyfun_def
    by (rule exI [of _ "map ((*) c) cs"]) (use cs in \<open>simp add: peval_smult\<close>)
qed

lemma polyfun_shift:
  assumes "polyfun k F"
  shows "polyfun (Suc k) (\<lambda>x. x * F x)"
proof -
  from assms obtain cs where cs: "length cs \<le> k" "\<forall>x. F x = peval cs x"
    by (auto simp: polyfun_def)
  show ?thesis unfolding polyfun_def
    by (rule exI [of _ "0 # cs"]) (use cs in simp)
qed

lemma polyfun_linear_factor:
  assumes "polyfun k F"
  shows "polyfun (Suc k) (\<lambda>x. (x - c) * F x)"
proof -
  have "polyfun (Suc k) (\<lambda>x. x * F x)" using assms by (rule polyfun_shift)
  moreover have "polyfun (Suc k) (\<lambda>x. (- c) * F x)"
    using assms by (intro polyfun_smult polyfun_mono [of k F "Suc k"]) simp_all
  ultimately have "polyfun (Suc k) (\<lambda>x. x * F x + (- c) * F x)" by (rule polyfun_add)
  moreover have "(\<lambda>x. x * F x + (- c) * F x) = (\<lambda>x. (x - c) * F x)"
    by (rule ext) (simp add: algebra_simps)
  ultimately show ?thesis by simp
qed

lemma polyfun_prod_linear:
  assumes "finite S"
  shows "polyfun (Suc (card S)) (\<lambda>x. \<Prod>j\<in>S. x - c j)"
  using assms
proof (induction S)
  case empty
  show ?case by (simp add: polyfun_const)
next
  case (insert a S)
  have "polyfun (Suc (Suc (card S))) (\<lambda>x. (x - c a) * (\<Prod>j\<in>S. x - c j))"
    using insert.IH by (rule polyfun_linear_factor)
  then show ?case using insert.hyps by simp
qed

lemma polyfun_sum:
  assumes "finite S" and "\<forall>i\<in>S. polyfun k (F i)"
  shows "polyfun k (\<lambda>x. \<Sum>i\<in>S. F i x)"
  using assms
proof (induction S)
  case empty
  show ?case by (simp add: polyfun_zero)
next
  case (insert a S)
  have "polyfun k (\<lambda>x. F a x + (\<Sum>i\<in>S. F i x))"
    using insert by (intro polyfun_add) simp_all
  then show ?case using insert.hyps by simp
qed

lemma is_prime_dvd_prod:
  assumes "is_prime P" and "finite S" and "P dvd (\<Prod>j\<in>S. f j)"
  shows "\<exists>j\<in>S. P dvd f j"
  using assms(2,3)
proof (induction S)
  case empty
  then have "P dvd 1" by simp
  then show ?case using is_prime_gt_1 [OF assms(1)] by (simp add: zdvd1_eq)
next
  case (insert a S)
  then have "P dvd f a * (\<Prod>j\<in>S. f j)" by simp
  then have "P dvd f a \<or> P dvd (\<Prod>j\<in>S. f j)" using assms(1) is_prime_dvd_mult by blast
  then show ?case using insert.IH by auto
qed


lemma lagrange_at_zero:
  assumes P: "is_prime P"
    and dist: "distinct (map (\<lambda>i. x i mod P) [0..<t])"
    and F: "polyfun t F"
    and inv: "\<forall>i<t. P dvd v i * (\<Prod>j\<in>{..<t} - {i}. x i - x j) - 1"
  shows "P dvd (\<Sum>i<t. F (x i) * v i * (\<Prod>j\<in>{..<t} - {i}. 0 - x j)) - F 0"
proof -
  define N where "N i z = (\<Prod>j\<in>{..<t} - {i}. z - x j)" for i z
  define G where "G z = (\<Sum>i<t. (F (x i) * v i) * N i z) + (- 1) * F z" for z
  have "polyfun t (\<lambda>z. (F (x i) * v i) * N i z)" if "i < t" for i
  proof -
    have "polyfun (Suc (card ({..<t} - {i}))) (\<lambda>z. \<Prod>j\<in>{..<t} - {i}. z - x j)"
      by (rule polyfun_prod_linear) simp
    moreover have "Suc (card ({..<t} - {i})) = t" using that by simp
    ultimately have "polyfun t (N i)" unfolding N_def by simp
    then show ?thesis by (rule polyfun_smult)
  qed
  then have "polyfun t (\<lambda>z. \<Sum>i<t. (F (x i) * v i) * N i z)"
    by (intro polyfun_sum) simp_all
  moreover have "polyfun t (\<lambda>z. (- 1) * F z)" using F by (rule polyfun_smult)
  ultimately have "polyfun t G" unfolding G_def by (rule polyfun_add)
  then have pf: "polyfun (length (map x [0..<t])) G" by simp
  have roots: "\<forall>r\<in>set (map x [0..<t]). P dvd G r"
  proof
    fix r assume "r \<in> set (map x [0..<t])"
    then obtain m where m: "m < t" "r = x m" by auto
    have zero: "N i (x m) = 0" if "i \<in> {..<t} - {m}" for i
    proof -
      have "m \<in> {..<t} - {i}" using that m(1) by auto
      moreover have "x m - x m = 0" by simp
      ultimately show ?thesis unfolding N_def by (intro prod_zero) auto
    qed
    have "(\<Sum>i<t. (F (x i) * v i) * N i (x m)) =
          (F (x m) * v m) * N m (x m) + (\<Sum>i\<in>{..<t} - {m}. (F (x i) * v i) * N i (x m))"
      using m(1) by (intro sum.remove) simp_all
    also have "(\<Sum>i\<in>{..<t} - {m}. (F (x i) * v i) * N i (x m)) = 0"
      using zero by simp
    finally have "G (x m) = F (x m) * (v m * N m (x m) - 1)"
      by (simp add: G_def algebra_simps)
    moreover have "P dvd v m * N m (x m) - 1" using inv m(1) by (simp add: N_def)
    ultimately show "P dvd G r" by (simp add: m(2))
  qed
  have "distinct (map (\<lambda>r. r mod P) (map x [0..<t]))"
    using dist by (simp add: comp_def)
  with P pf roots have "P dvd G 0" by (rule polyfun_roots_vanish)
  then show ?thesis by (simp add: G_def N_def)
qed

lemma horner_step_mod:
  fixes r x c P :: int
  shows "((r mod P) * x + c) mod P = (r * x + c) mod P"
proof -
  have "((r mod P) * x + c) mod P = (((r mod P) * x) mod P + c) mod P"
    by (simp only: mod_add_left_eq)
  also have "((r mod P) * x) mod P = (r * x) mod P" by (simp only: mod_mult_left_eq)
  also have "((r * x) mod P + c) mod P = (r * x + c) mod P" by (simp only: mod_add_left_eq)
  finally show ?thesis .
qed

lemma horner_fold:
  "fold (\<lambda>coefficient result. (result * x + coefficient) mod P) (rev cs) 0 mod P =
   peval cs x mod P"
proof (induction cs)
  case Nil
  show ?case by simp
next
  case (Cons c cs)
  have "(fold (\<lambda>coefficient result. (result * x + coefficient) mod P) (rev cs) 0 * x + c) mod P =
        ((fold (\<lambda>coefficient result. (result * x + coefficient) mod P) (rev cs) 0 mod P) * x + c) mod P"
    by (simp only: horner_step_mod)
  also have "\<dots> = ((peval cs x mod P) * x + c) mod P" by (simp only: Cons.IH)
  also have "\<dots> = (peval cs x * x + c) mod P" by (simp only: horner_step_mod)
  also have "\<dots> = (c + x * peval cs x) mod P" by (simp only: add.commute mult.commute)
  finally show ?case by simp
qed

lemma evaluate_polynomial_result:
  assumes "P \<noteq> 0" and "cs \<noteq> []"
  shows "evaluate_polynomial P cs x = Inr (peval cs x mod P)"
proof -
  obtain c cs' where cs: "cs = c # cs'" using assms(2) by (cases cs) auto
  let ?r = "fold (\<lambda>coefficient result. (result * x + coefficient) mod P) (rev cs) 0"
  have "?r = ?r mod P" by (simp add: cs)
  also have "\<dots> = peval cs x mod P" by (rule horner_fold)
  finally show ?thesis using assms by (simp add: evaluate_polynomial_def)
qed

lemma shares_loop_result:
  assumes "P \<noteq> 0" and "cs \<noteq> []"
  shows "shares_loop P cs ids = Inr (map (\<lambda>i. (i, peval cs i mod P)) ids)"
  by (induction ids) (simp_all add: evaluate_polynomial_result [OF assms])

lemma generate_shares_result:
  assumes "1 < ss_prime self" and "secret < ss_prime self"
  shows "generate_shares self secret draws =
         Inr (map (\<lambda>i. (i, peval (secret # take (nat (ss_threshold self - 1)) draws) i mod ss_prime self))
                [1..ss_total_shares self])"
  using assms by (simp add: generate_shares_def Let_def shares_loop_result)

lemma extended_gcd_error: "extended_gcd frames a b = Inl e \<Longrightarrow> e = RecursionError"
proof (induction frames arbitrary: a b)
  case 0
  then show ?case by simp
next
  case (Suc frames)
  then show ?case by (auto split: if_splits sum.splits)
qed

lemma extended_gcd_correct:
  "0 \<le> a \<Longrightarrow> 0 \<le> b \<Longrightarrow> extended_gcd frames a b = Inr (d, x, y) \<Longrightarrow>
   d = gcd a b \<and> a * x + b * y = d"
proof (induction frames arbitrary: a b d x y)
  case 0
  then show ?case by simp
next
  case (Suc frames)
  show ?case
  proof (cases "a = 0")
    case True
    with Suc.prems show ?thesis by simp
  next
    case False
    from Suc.prems(3) False obtain d' x1 y1 where
      r: "extended_gcd frames (b mod a) a = Inr (d', x1, y1)"
      by (auto split: sum.splits)
    have pos: "0 < a" using False Suc.prems(1) by simp
    then have "0 \<le> b mod a" by simp
    from Suc.IH [OF this Suc.prems(1) r]
    have ih: "d' = gcd (b mod a) a" "(b mod a) * x1 + a * y1 = d'" by simp_all
    have "extended_gcd (Suc frames) a b = Inr (d', y1 - (b div a) * x1, x1)"
      using False r by simp
    with Suc.prems(3) have "(d, x, y) = (d', y1 - (b div a) * x1, x1)"
      by (simp only: sum.inject)
    then have res: "d = d'" "x = y1 - (b div a) * x1" "y = x1"
      by blast+
    have "d = gcd a b" using ih(1) res(1) by (simp add: gcd.commute gcd_red_int [symmetric])
    moreover have "a * x + b * y = (b - (b div a) * a) * x1 + a * y1"
      by (simp add: res algebra_simps)
    then have "a * x + b * y = (b mod a) * x1 + a * y1"
      by (simp add: minus_div_mult_eq_mod)
    ultimately show ?thesis using ih(2) res(1) by simp
  qed
qed

lemma mod_less_half:
  fixes a r :: int
  assumes "0 < r" and "r \<le> a"
  shows "2 * (a mod r) < a"
proof -
  have "0 < a div r" using assms by (simp add: pos_imp_zdiv_pos_iff)
  then have "1 \<le> a div r" by simp
  then have "r * 1 \<le> r * (a div r)" using assms(1) by (intro mult_left_mono) simp_all
  moreover have "a = r * (a div r) + a mod r" by simp
  moreover have "a mod r < r" using assms(1) by simp
  ultimately show ?thesis by linarith
qed

lemma extended_gcd_returns:
  "0 \<le> a \<Longrightarrow> a < 2 ^ k \<Longrightarrow> 2 * k + 1 \<le> frames \<Longrightarrow> \<exists>r. extended_gcd frames a b = Inr r"
proof (induction k arbitrary: a b frames)
  case 0
  then have "a = 0" by simp
  moreover from 0 obtain f where "frames = Suc f" by (cases frames) auto
  ultimately show ?case by simp
next
  case (Suc k)
  from Suc.prems(3) obtain f where f: "frames = Suc (Suc f)" "2 * k + 1 \<le> f"
    by (cases frames; cases "frames - 1") auto
  show ?case
  proof (cases "a = 0")
    case True
    then show ?thesis by (simp add: f)
  next
    case False
    then have a: "0 < a" using Suc.prems(1) by simp
    define r where "r = b mod a"
    have r: "0 \<le> r" "r < a" using a by (simp_all add: r_def)
    show ?thesis
    proof (cases "r = 0")
      case True
      then show ?thesis using False by (simp add: f r_def)
    next
      case False
      then have rp: "0 < r" using r(1) by simp
      have "2 * (a mod r) < a" using rp r(2) by (intro mod_less_half) simp_all
      then have "2 * (a mod r) < 2 * 2 ^ k" using Suc.prems(2) by simp
      then have "a mod r < 2 ^ k" by simp
      moreover have "0 \<le> a mod r" using rp by simp
      ultimately have "\<exists>res. extended_gcd f (a mod r) r = Inr res"
        using f(2) by (intro Suc.IH)
      then obtain d x y where "extended_gcd f (a mod r) r = Inr (d, x, y)"
        by (metis prod_cases3)
      then show ?thesis using False \<open>a \<noteq> 0\<close> by (simp add: f r_def)
    qed
  qed
qed

lemma mod_inverse_cases:
  assumes "1 < P" and "0 \<le> a" and "coprime a P"
  shows "mod_inverse frames P a = Inl RecursionError \<or>
         (\<exists>v. mod_inverse frames P a = Inr v \<and> (a * v) mod P = 1)"
proof (cases "extended_gcd frames a P")
  case (Inl e)
  then have "e = RecursionError" by (rule extended_gcd_error)
  with Inl show ?thesis by (simp add: mod_inverse_def)
next
  case (Inr res)
  obtain d x y where res: "res = (d, x, y)" by (cases res)
  from assms(1) have "0 \<le> P" by simp
  from extended_gcd_correct [OF assms(2) this Inr [unfolded res]] assms(3)
  have d: "d = 1" and b: "a * x + P * y = 1" by (simp_all add: coprime_iff_gcd_eq_1)
  have "(a * x) mod P = (a * x + P * y) mod P" by simp
  then have ax: "(a * x) mod P = 1" using b assms(1) by simp
  have "mod_inverse frames P a = Inr (x mod P)"
    using Inr res d assms(1) by (simp add: mod_inverse_def)
  moreover have "(a * (x mod P)) mod P = 1" using ax by (simp add: mod_mult_right_eq)
  ultimately show ?thesis by blast
qed

lemma mod_inverse_returns:
  assumes "1 < P" and "0 \<le> a" and "coprime a P" and "a < 2 ^ k" and "2 * k + 1 \<le> frames"
  shows "\<exists>v. mod_inverse frames P a = Inr v \<and> (a * v) mod P = 1"
proof -
  from extended_gcd_returns [OF assms(2,4,5)] obtain r where "extended_gcd frames a P = Inr r"
    by blast
  then have "mod_inverse frames P a \<noteq> Inl RecursionError"
    by (auto simp: mod_inverse_def split: prod.splits)
  with mod_inverse_cases [OF assms(1-3)] show ?thesis by blast
qed

lemma lagrange_terms_snoc:
  "lagrange_terms P i xi (ys @ [y]) =
     (case lagrange_terms P i xi ys of
        (num, den) \<Rightarrow>
          if i \<noteq> length ys then ((num * (- fst y)) mod P, (den * (xi - fst y)) mod P)
          else (num, den))"
  by (simp add: lagrange_terms_def enumerate_append_eq split: prod.splits)

lemma lagrange_terms_Nil: "lagrange_terms P i xi [] = (1, 1)"
  by (simp add: lagrange_terms_def)

lemma lagrange_terms_nonneg:
  assumes "0 < P"
  shows "0 \<le> snd (lagrange_terms P i xi shs)"
proof (induction shs rule: rev_induct)
  case Nil
  show ?case by (simp add: lagrange_terms_Nil)
next
  case (snoc y ys)
  then show ?case using assms
    by (cases "lagrange_terms P i xi ys") (simp add: lagrange_terms_snoc)
qed

lemma prod_snoc_index:
  fixes g :: "'a \<Rightarrow> int"
  shows "(\<Prod>j\<in>{..<length (ys @ [y])} - {i}. g ((ys @ [y]) ! j)) =
         (if i \<noteq> length ys then g y else 1) * (\<Prod>j\<in>{..<length ys} - {i}. g (ys ! j))"
proof -
  have same: "(\<Prod>j\<in>{..<length ys} - {i}. g ((ys @ [y]) ! j)) = (\<Prod>j\<in>{..<length ys} - {i}. g (ys ! j))"
    by (rule prod.cong) (simp_all add: nth_append)
  show ?thesis
  proof (cases "i = length ys")
    case True
    then have "{..<length (ys @ [y])} - {i} = {..<length ys} - {i}" by auto
    then show ?thesis using same True by simp
  next
    case False
    then have "{..<length (ys @ [y])} - {i} = insert (length ys) ({..<length ys} - {i})" by auto
    then have "(\<Prod>j\<in>{..<length (ys @ [y])} - {i}. g ((ys @ [y]) ! j)) =
               g ((ys @ [y]) ! length ys) * (\<Prod>j\<in>{..<length ys} - {i}. g ((ys @ [y]) ! j))"
      by simp
    then show ?thesis using same False by simp
  qed
qed

lemma lagrange_terms_prod:
  "fst (lagrange_terms P i xi shs) mod P = (\<Prod>j\<in>{..<length shs} - {i}. - fst (shs ! j)) mod P \<and>
   snd (lagrange_terms P i xi shs) mod P = (\<Prod>j\<in>{..<length shs} - {i}. xi - fst (shs ! j)) mod P"
proof (induction shs rule: rev_induct)
  case Nil
  show ?case by (simp add: lagrange_terms_Nil)
next
  case (snoc y ys)
  obtain num den where t: "lagrange_terms P i xi ys = (num, den)"
    by (cases "lagrange_terms P i xi ys") auto
  from snoc have ih:
    "num mod P = (\<Prod>j\<in>{..<length ys} - {i}. - fst (ys ! j)) mod P"
    "den mod P = (\<Prod>j\<in>{..<length ys} - {i}. xi - fst (ys ! j)) mod P"
    by (simp_all add: t)
  have pn: "(\<Prod>j\<in>{..<length (ys @ [y])} - {i}. - fst ((ys @ [y]) ! j)) =
            (if i \<noteq> length ys then - fst y else 1) * (\<Prod>j\<in>{..<length ys} - {i}. - fst (ys ! j))"
    by (rule prod_snoc_index [where g = "\<lambda>s. - fst s"])
  have pd: "(\<Prod>j\<in>{..<length (ys @ [y])} - {i}. xi - fst ((ys @ [y]) ! j)) =
            (if i \<noteq> length ys then xi - fst y else 1) * (\<Prod>j\<in>{..<length ys} - {i}. xi - fst (ys ! j))"
    by (rule prod_snoc_index [where g = "\<lambda>s. xi - fst s"])
  show ?case
  proof (cases "i = length ys")
    case True
    have lt: "lagrange_terms P i xi (ys @ [y]) = (num, den)"
      unfolding lagrange_terms_snoc t using True by simp
    show ?thesis unfolding lt pn pd using ih True by simp
  next
    case False
    have lt: "lagrange_terms P i xi (ys @ [y]) =
                   ((num * (- fst y)) mod P, (den * (xi - fst y)) mod P)"
      unfolding lagrange_terms_snoc t using False by simp
    have "(num * (- fst y)) mod P = ((num mod P) * (- fst y)) mod P"
      by (simp only: mod_mult_left_eq)
    also have "\<dots> = ((\<Prod>j\<in>{..<length ys} - {i}. - fst (ys ! j)) * (- fst y)) mod P"
      by (simp only: ih mod_mult_left_eq)
    finally have n: "(num * (- fst y)) mod P =
        ((- fst y) * (\<Prod>j\<in>{..<length ys} - {i}. - fst (ys ! j))) mod P"
      by (simp only: mult.commute)
    have "(den * (xi - fst y)) mod P = ((den mod P) * (xi - fst y)) mod P"
      by (simp only: mod_mult_left_eq)
    also have "\<dots> = ((\<Prod>j\<in>{..<length ys} - {i}. xi - fst (ys ! j)) * (xi - fst y)) mod P"
      by (simp only: ih mod_mult_left_eq)
    finally have d: "(den * (xi - fst y)) mod P =
        ((xi - fst y) * (\<Prod>j\<in>{..<length ys} - {i}. xi - fst (ys ! j))) mod P"
      by (simp only: mult.commute)
    show ?thesis unfolding lt pn pd using False n d by simp
  qed
qed

lemma lagrange_terms_less:
  assumes "1 < P"
  shows "snd (lagrange_terms P i xi shs) < P"
proof (induction shs rule: rev_induct)
  case Nil
  show ?case using assms by (simp add: lagrange_terms_Nil)
next
  case (snoc y ys)
  then show ?case using assms
    by (cases "lagrange_terms P i xi ys") (simp add: lagrange_terms_snoc)
qed

lemma reconstruct_step_Inl: "reconstruct_step frames P shs (i, e) (Inl err) = Inl err"
  by (cases e) (simp add: reconstruct_step_def)

lemma reconstruct_fold:
  "pre @ suf = shs \<Longrightarrow>
   \<forall>i<length pre. mod_inverse frames P (snd (lagrange_terms P i (fst (shs ! i)) shs)) = Inr (v i) \<Longrightarrow>
   fold (reconstruct_step frames P shs) (enumerate 0 pre) (Inr 0) =
   Inr ((\<Sum>i<length pre. snd (shs ! i) *
           ((fst (lagrange_terms P i (fst (shs ! i)) shs) * v i) mod P)) mod P)"
proof (induction pre arbitrary: suf rule: rev_induct)
  case Nil
  show ?case by simp
next
  case (snoc y ys)
  let ?n = "length ys"
  let ?contrib = "\<lambda>i. snd (shs ! i) * ((fst (lagrange_terms P i (fst (shs ! i)) shs) * v i) mod P)"
  have shs: "ys @ ([y] @ suf) = shs" using snoc.prems(1) by simp
  have "\<forall>i<length ys. mod_inverse frames P (snd (lagrange_terms P i (fst (shs ! i)) shs)) = Inr (v i)"
    using snoc.prems(2) by simp
  with shs have ih: "fold (reconstruct_step frames P shs) (enumerate 0 ys) (Inr 0) =
                 Inr ((\<Sum>i<?n. ?contrib i) mod P)"
    by (rule snoc.IH)
  have y: "shs ! ?n = y" using shs by auto
  obtain xi yi where xy: "y = (xi, yi)" by (cases y)
  obtain num den where t: "lagrange_terms P ?n xi shs = (num, den)"
    by (cases "lagrange_terms P ?n xi shs") auto
  from snoc.prems(2)
  have "mod_inverse frames P (snd (lagrange_terms P ?n (fst (shs ! ?n)) shs)) = Inr (v ?n)"
    by simp
  then have iv: "mod_inverse frames P den = Inr (v ?n)" by (simp add: y xy t)
  have "fold (reconstruct_step frames P shs) (enumerate 0 (ys @ [y])) (Inr 0) =
        reconstruct_step frames P shs (?n, y) (Inr ((\<Sum>i<?n. ?contrib i) mod P))"
    by (simp add: enumerate_append_eq ih)
  also have "\<dots> = Inr (((\<Sum>i<?n. ?contrib i) mod P + yi * ((num * v ?n) mod P)) mod P)"
    by (simp add: reconstruct_step_def xy t iv Let_def)
  also have "((\<Sum>i<?n. ?contrib i) mod P + yi * ((num * v ?n) mod P)) mod P =
             ((\<Sum>i<?n. ?contrib i) + ?contrib ?n) mod P"
    by (simp add: y xy t mod_add_left_eq)
  finally show ?case by simp
qed

lemma reconstruct_fold_error:
  "pre @ suf = shs \<Longrightarrow>
   \<forall>i<length pre. mod_inverse frames P (snd (lagrange_terms P i (fst (shs ! i)) shs)) = Inl RecursionError \<or>
      (\<exists>w. mod_inverse frames P (snd (lagrange_terms P i (fst (shs ! i)) shs)) = Inr w) \<Longrightarrow>
   \<exists>i<length pre. mod_inverse frames P (snd (lagrange_terms P i (fst (shs ! i)) shs)) = Inl RecursionError \<Longrightarrow>
   fold (reconstruct_step frames P shs) (enumerate 0 pre) (Inr 0) = Inl RecursionError"
proof (induction pre arbitrary: suf rule: rev_induct)
  case Nil
  then show ?case by simp
next
  case (snoc y ys)
  let ?n = "length ys"
  let ?m = "\<lambda>i. mod_inverse frames P (snd (lagrange_terms P i (fst (shs ! i)) shs))"
  have shs: "ys @ ([y] @ suf) = shs" using snoc.prems(1) by simp
  have cases_ys: "\<forall>i<?n. ?m i = Inl RecursionError \<or> (\<exists>w. ?m i = Inr w)"
    using snoc.prems(2) by simp
  have step: "fold (reconstruct_step frames P shs) (enumerate 0 (ys @ [y])) (Inr 0) =
        reconstruct_step frames P shs (?n, y)
          (fold (reconstruct_step frames P shs) (enumerate 0 ys) (Inr 0))"
    by (simp add: enumerate_append_eq)
  show ?case
  proof (cases "\<exists>i<?n. ?m i = Inl RecursionError")
    case True
    with shs cases_ys
    have "fold (reconstruct_step frames P shs) (enumerate 0 ys) (Inr 0) = Inl RecursionError"
      by (rule snoc.IH)
    then show ?thesis by (simp only: step reconstruct_step_Inl)
  next
    case False
    with cases_ys have "\<forall>i. \<exists>w. i < ?n \<longrightarrow> ?m i = Inr w" by blast
    then have "\<exists>v. \<forall>i. i < ?n \<longrightarrow> ?m i = Inr (v i)" by (rule choice)
    then obtain v where v: "\<forall>i<?n. ?m i = Inr (v i)" by blast
    from reconstruct_fold [OF shs v] obtain S where
      S: "fold (reconstruct_step frames P shs) (enumerate 0 ys) (Inr 0) = Inr S"
      by blast
    from snoc.prems(3) False have last: "?m ?n = Inl RecursionError"
      by (auto simp: less_Suc_eq)
    have y: "shs ! ?n = y" using shs by auto
    obtain xi yi where xy: "y = (xi, yi)" by (cases y)
    obtain num den where t: "lagrange_terms P ?n xi shs = (num, den)"
      by (cases "lagrange_terms P ?n xi shs") auto
    from last have "mod_inverse frames P den = Inl RecursionError" by (simp add: y xy t)
    then have "reconstruct_step frames P shs (?n, y) (Inr S) = Inl RecursionError"
      by (simp add: reconstruct_step_def xy t)
    then show ?thesis by (simp only: step S)
  qed
qed

lemma sum_mod_cong:
  fixes f g :: "nat \<Rightarrow> int"
  assumes "\<forall>i\<in>S. f i mod P = g i mod P"
  shows "sum f S mod P = sum g S mod P"
proof -
  have "sum f S mod P = (\<Sum>i\<in>S. f i mod P) mod P" by (simp only: mod_sum_eq)
  also have "(\<Sum>i\<in>S. f i mod P) = (\<Sum>i\<in>S. g i mod P)"
    using assms by (intro sum.cong) simp_all
  also have "\<dots> mod P = sum g S mod P" by (simp only: mod_sum_eq)
  finally show ?thesis .
qed

lemma reconstruct_interpolates:
  assumes P: "is_prime P" and prime: "ss_prime self = P"
    and thr: "ss_threshold self = int (length shs)" and ne: "shs \<noteq> []"
    and F: "polyfun (length shs) F"
    and vals: "\<forall>i<length shs. snd (shs ! i) mod P = F (fst (shs ! i)) mod P"
    and dist: "distinct (map (\<lambda>s. fst s mod P) shs)"
  shows "reconstruct_secret frames self shs = Inr (F 0 mod P) \<or>
         reconstruct_secret frames self shs = Inl RecursionError"
    and "P < 2 ^ k \<Longrightarrow> 2 * k + 1 \<le> frames \<Longrightarrow>
         reconstruct_secret frames self shs = Inr (F 0 mod P)"
proof -
  define t where "t = length shs"
  define x where "x i = fst (shs ! i)" for i
  define num where "num i = fst (lagrange_terms P i (x i) shs)" for i
  define den where "den i = snd (lagrange_terms P i (x i) shs)" for i
  define m where "m i = mod_inverse frames P (den i)" for i
  define D where "D i = (\<Prod>j\<in>{..<t} - {i}. x i - x j)" for i
  define Z where "Z i = (\<Prod>j\<in>{..<t} - {i}. 0 - x j)" for i
  have P1: "1 < P" using P by (rule is_prime_gt_1)
  have m_unfold: "mod_inverse frames P (snd (lagrange_terms P i (fst (shs ! i)) shs)) = m i" for i
    by (simp add: m_def den_def x_def)
  have num_mod: "num i mod P = Z i mod P" and den_mod: "den i mod P = D i mod P" for i
    using lagrange_terms_prod [of P i "x i" shs] by (simp_all add: num_def den_def D_def Z_def x_def t_def)
  have den_nonneg: "0 \<le> den i" for i
    unfolding den_def using P1 by (intro lagrange_terms_nonneg) simp
  have den_less: "den i < P" for i
    unfolding den_def using P1 by (rule lagrange_terms_less)
  have xdist: "x i mod P \<noteq> x j mod P" if "i < t" "j < t" "i \<noteq> j" for i j
  proof -
    have "map (\<lambda>s. fst s mod P) shs ! i \<noteq> map (\<lambda>s. fst s mod P) shs ! j"
      using dist that by (simp add: distinct_conv_nth t_def)
    then show ?thesis using that by (simp add: x_def t_def)
  qed
  have D_ndvd: "\<not> P dvd D i" if "i < t" for i
  proof
    assume "P dvd D i"
    then have "\<exists>j\<in>{..<t} - {i}. P dvd x i - x j"
      unfolding D_def using P by (intro is_prime_dvd_prod) simp_all
    then obtain j where j: "j < t" "j \<noteq> i" "P dvd x i - x j" by auto
    from j(3) have "x i mod P = x j mod P" by (simp add: mod_eq_dvd_iff)
    with xdist [OF that j(1)] j(2) show False by auto
  qed
  have den_coprime: "coprime (den i) P" if "i < t" for i
  proof -
    have "\<not> P dvd den i"
    proof
      assume "P dvd den i"
      then have "den i mod P = 0" by simp
      then have "D i mod P = 0" by (simp add: den_mod)
      then have "P dvd D i" by (simp add: mod_eq_0_iff_dvd)
      with D_ndvd [OF that] show False by simp
    qed
    with P show ?thesis by (rule is_prime_coprime)
  qed
  have rounds: "m i = Inl RecursionError \<or> (\<exists>w. m i = Inr w \<and> (den i * w) mod P = 1)"
    if "i < t" for i
    unfolding m_def using P1 den_nonneg den_coprime [OF that] by (rule mod_inverse_cases)
  have "py_prefix shs (int (length shs)) = shs" by (simp add: py_prefix_def)
  then have rec: "reconstruct_secret frames self shs =
      fold (reconstruct_step frames P shs) (enumerate 0 shs) (Inr 0)"
    using ne P1 by (simp add: reconstruct_secret_def thr prime)
  have app: "shs @ [] = shs" by simp
  have main: "reconstruct_secret frames self shs = Inr (F 0 mod P)"
    if v: "\<forall>i<t. m i = Inr (v i)" and v1: "\<forall>i<t. (den i * v i) mod P = 1" for v
  proof -
    have inv: "\<forall>i<length shs.
        mod_inverse frames P (snd (lagrange_terms P i (fst (shs ! i)) shs)) = Inr (v i)"
      using v by (simp add: m_unfold t_def)
    from app inv have fold_eq: "fold (reconstruct_step frames P shs) (enumerate 0 shs) (Inr 0) =
        Inr ((\<Sum>i<length shs. snd (shs ! i) *
                ((fst (lagrange_terms P i (fst (shs ! i)) shs) * v i) mod P)) mod P)"
      by (rule reconstruct_fold)
    have res: "reconstruct_secret frames self shs =
        Inr ((\<Sum>i<t. snd (shs ! i) * ((num i * v i) mod P)) mod P)"
      using fold_eq by (simp add: rec num_def x_def t_def)
    have inv_dvd: "\<forall>i<t. P dvd v i * D i - 1"
    proof (intro allI impI)
      fix i assume i: "i < t"
      have "(v i * D i) mod P = (v i * den i) mod P"
        by (rule mod_mult_cong) (simp_all add: den_mod)
      also have "\<dots> = 1" using v1 i by (simp add: mult.commute)
      finally have "(v i * D i) mod P = 1 mod P" using P1 by simp
      then show "P dvd v i * D i - 1" by (simp only: mod_eq_dvd_iff)
    qed
    have xd: "distinct (map (\<lambda>i. x i mod P) [0..<t])"
    proof -
      have "map (\<lambda>i. x i mod P) [0..<t] = map (\<lambda>s. fst s mod P) shs"
        by (rule nth_equalityI) (simp_all add: x_def t_def)
      then show ?thesis using dist by simp
    qed
    have "P dvd (\<Sum>i<t. F (x i) * v i * (\<Prod>j\<in>{..<t} - {i}. 0 - x j)) - F 0"
      using P xd F [folded t_def] inv_dvd [unfolded D_def] by (rule lagrange_at_zero)
    then have lag: "(\<Sum>i<t. F (x i) * v i * Z i) mod P = F 0 mod P"
      by (simp only: mod_eq_dvd_iff Z_def)
    have "(\<Sum>i<t. snd (shs ! i) * ((num i * v i) mod P)) mod P = (\<Sum>i<t. F (x i) * v i * Z i) mod P"
    proof (rule sum_mod_cong, rule ballI)
      fix i assume "i \<in> {..<t}"
      then have i: "i < length shs" by (simp add: t_def)
      have 1: "(num i * v i) mod P = (Z i * v i) mod P"
        by (rule mod_mult_cong) (simp_all add: num_mod)
      have 2: "((num i * v i) mod P) mod P = (Z i * v i) mod P" using 1 by simp
      have 3: "snd (shs ! i) mod P = F (x i) mod P" using vals i by (simp add: x_def)
      have "(snd (shs ! i) * ((num i * v i) mod P)) mod P = (F (x i) * (Z i * v i)) mod P"
        using 3 2 by (rule mod_mult_cong)
      also have "F (x i) * (Z i * v i) = F (x i) * v i * Z i" by (simp add: mult.commute mult.left_commute)
      finally show "(snd (shs ! i) * ((num i * v i) mod P)) mod P = (F (x i) * v i * Z i) mod P" .
    qed
    with lag res show ?thesis by simp
  qed
  have all_return: "reconstruct_secret frames self shs = Inr (F 0 mod P)"
    if "\<forall>i<t. \<exists>w. m i = Inr w \<and> (den i * w) mod P = 1"
  proof -
    from that have "\<forall>i. \<exists>w. i < t \<longrightarrow> m i = Inr w \<and> (den i * w) mod P = 1" by blast
    then have "\<exists>v. \<forall>i. i < t \<longrightarrow> m i = Inr (v i) \<and> (den i * v i) mod P = 1" by (rule choice)
    then obtain v where "\<forall>i<t. m i = Inr (v i)" and "\<forall>i<t. (den i * v i) mod P = 1"
      by blast
    then show ?thesis by (rule main)
  qed
  show "reconstruct_secret frames self shs = Inr (F 0 mod P) \<or>
        reconstruct_secret frames self shs = Inl RecursionError"
  proof (cases "\<exists>i<t. m i = Inl RecursionError")
    case True
    have c: "\<forall>i<length shs.
        mod_inverse frames P (snd (lagrange_terms P i (fst (shs ! i)) shs)) = Inl RecursionError \<or>
        (\<exists>w. mod_inverse frames P (snd (lagrange_terms P i (fst (shs ! i)) shs)) = Inr w)"
      using rounds unfolding m_unfold t_def by blast
    have e: "\<exists>i<length shs.
        mod_inverse frames P (snd (lagrange_terms P i (fst (shs ! i)) shs)) = Inl RecursionError"
      using True unfolding m_unfold t_def .
    from app c e have "fold (reconstruct_step frames P shs) (enumerate 0 shs) (Inr 0) =
        Inl RecursionError"
      by (rule reconstruct_fold_error)
    then show ?thesis by (simp add: rec)
  next
    case False
    with rounds have "\<forall>i<t. \<exists>w. m i = Inr w \<and> (den i * w) mod P = 1" by blast
    then show ?thesis using all_return by blast
  qed
  show "reconstruct_secret frames self shs = Inr (F 0 mod P)"
    if k: "P < 2 ^ k" "2 * k + 1 \<le> frames"
  proof (rule all_return, intro allI impI)
    fix i assume i: "i < t"
    have "den i < 2 ^ k" using den_less [of i] k(1) by simp
    with P1 den_nonneg den_coprime [OF i]
    show "\<exists>w. m i = Inr w \<and> (den i * w) mod P = 1"
      unfolding m_def using k(2) by (rule mod_inverse_returns)
  qed
qed

lemma reconstruct_secret_prefix:
  assumes "0 \<le> ss_threshold self" and "ss_threshold self \<le> int (length supplied)"
  shows "reconstruct_secret frames self supplied =
         reconstruct_secret frames self (take (nat (ss_threshold self)) supplied)"
proof -
  have "py_prefix (take (nat (ss_threshold self)) supplied) (ss_threshold self) =
        py_prefix supplied (ss_threshold self)"
    using assms by (simp add: py_prefix_def)
  moreover have "\<not> int (length (take (nat (ss_threshold self)) supplied)) < ss_threshold self"
    using assms by simp
  ultimately show ?thesis using assms(2) by (simp add: reconstruct_secret_def)
qed

lemma ids_distinct_mod:
  fixes a b P :: int
  assumes "1 \<le> a" "a \<le> P" "1 \<le> b" "b \<le> P" "a mod P = b mod P"
  shows "a = b"
proof (rule ccontr)
  assume ne: "a \<noteq> b"
  have d1: "P dvd a - b" using assms(5) by (simp only: mod_eq_dvd_iff)
  have d2: "P dvd b - a" using assms(5) [symmetric] by (simp only: mod_eq_dvd_iff)
  show False
  proof (cases "a < b")
    case True
    then have "0 < b - a" "b - a < P" using assms by simp_all
    then show False using d2 by (simp add: zdvd_not_zless)
  next
    case False
    with ne have "0 < a - b" "a - b < P" using assms by simp_all
    then show False using d1 by (simp add: zdvd_not_zless)
  qed
qed

text \<open>
  C3, as amended: over a prime modulus, for every secret \<open>0 \<le> s < prime\<close> and
  \<open>1 \<le> threshold \<le> total_shares\<close>, \<open>generate_shares\<close> returns the shares with ids
  \<open>1 .. total_shares\<close>, whatever the random coefficients are.  On every list of
  \<open>threshold\<close> distinct shares among them whose ids differ modulo the prime (every such
  list when \<open>total_shares \<le> prime\<close> or \<open>threshold = 1\<close>), in any order,
  \<open>reconstruct_secret\<close> returns exactly \<open>s\<close> or raises RecursionError, and it returns
  \<open>s\<close> whenever \<open>prime < 2^k\<close> and the interpreter allows \<open>2 * k + 1\<close> nested calls of
  \<open>extended_gcd\<close> (513 for a 256-bit prime).  On every list of at least \<open>threshold\<close>
  shares its result is the one of the first \<open>threshold\<close> shares supplied.
\<close>

theorem reconstruct_generated_shares:
  assumes "is_prime (ss_prime self)"
    and "1 \<le> ss_threshold self" and "ss_threshold self \<le> ss_total_shares self"
    and "0 \<le> secret" and "secret < ss_prime self"
  shows "\<exists>shares. generate_shares self secret draws = Inr shares \<and>
           map fst shares = [1..ss_total_shares self] \<and>
           (\<forall>frames subset.
              set subset \<subseteq> set shares \<and> distinct subset \<and>
              int (length subset) = ss_threshold self \<and>
              (ss_total_shares self \<le> ss_prime self \<or> ss_threshold self = 1 \<or>
               distinct (map (\<lambda>share. fst share mod ss_prime self) subset)) \<longrightarrow>
              (reconstruct_secret frames self subset = Inr secret \<or>
               reconstruct_secret frames self subset = Inl RecursionError) \<and>
              (\<forall>k. ss_prime self < 2 ^ k \<and> 2 * k + 1 \<le> frames \<longrightarrow>
                   reconstruct_secret frames self subset = Inr secret)) \<and>
           (\<forall>frames supplied. ss_threshold self \<le> int (length supplied) \<longrightarrow>
              reconstruct_secret frames self supplied =
              reconstruct_secret frames self (take (nat (ss_threshold self)) supplied))"
proof -
  define P where "P = ss_prime self"
  define cs where "cs = secret # take (nat (ss_threshold self - 1)) draws"
  define shares where "shares = map (\<lambda>i. (i, peval cs i mod P)) [1..ss_total_shares self]"
  have P: "is_prime P" using assms(1) by (simp add: P_def)
  then have P1: "1 < P" by (rule is_prime_gt_1)
  have gen: "generate_shares self secret draws = Inr shares"
    unfolding shares_def cs_def P_def using P1 assms(5) by (intro generate_shares_result) (simp_all add: P_def)
  have ids: "map fst shares = [1..ss_total_shares self]"
    by (simp add: shares_def comp_def)
  have sub: "(reconstruct_secret frames self subset = Inr secret \<or>
              reconstruct_secret frames self subset = Inl RecursionError) \<and>
             (\<forall>k. ss_prime self < 2 ^ k \<and> 2 * k + 1 \<le> frames \<longrightarrow>
                  reconstruct_secret frames self subset = Inr secret)"
    if s: "set subset \<subseteq> set shares" "distinct subset" "int (length subset) = ss_threshold self"
      and c: "ss_total_shares self \<le> ss_prime self \<or> ss_threshold self = 1 \<or>
              distinct (map (\<lambda>share. fst share mod ss_prime self) subset)"
    for frames subset
  proof -
    have mem: "1 \<le> fst e \<and> fst e \<le> ss_total_shares self \<and> snd e = peval cs (fst e) mod P"
      if "e \<in> set subset" for e
      using that s(1) by (auto simp: shares_def)
    have ne: "subset \<noteq> []" using s(3) assms(2) by auto
    have len: "length cs \<le> length subset"
      using s(3) assms(2) by (simp add: cs_def)
    then have F: "polyfun (length subset) (peval cs)" by (rule polyfun_peval)
    have vals: "\<forall>i<length subset. snd (subset ! i) mod P = peval cs (fst (subset ! i)) mod P"
      using mem by simp
    have dist: "distinct (map (\<lambda>e. fst e mod P) subset)"
    proof -
      consider (total) "ss_total_shares self \<le> P" | (one) "ss_threshold self = 1"
        | (given) "distinct (map (\<lambda>share. fst share mod P) subset)"
        using c by (auto simp: P_def)
      then show ?thesis
      proof cases
        case total
        have "inj_on (\<lambda>e. fst e mod P) (set subset)"
        proof (rule inj_onI)
          fix a b assume ab: "a \<in> set subset" "b \<in> set subset" "fst a mod P = fst b mod P"
          have "fst a = fst b"
            by (rule ids_distinct_mod [of _ P]) (use mem [OF ab(1)] mem [OF ab(2)] total ab(3) in simp_all)
          moreover have "snd a = snd b" using mem [OF ab(1)] mem [OF ab(2)] \<open>fst a = fst b\<close> by simp
          ultimately show "a = b" by (simp add: prod_eq_iff)
        qed
        with s(2) show ?thesis by (simp add: distinct_map)
      next
        case one
        with s(3) have "length subset = 1" by simp
        then obtain e where "subset = [e]" by (cases subset) auto
        then show ?thesis by simp
      next
        case given
        then show ?thesis .
      qed
    qed
    have thr: "ss_threshold self = int (length subset)" using s(3) by simp
    have z: "peval cs 0 mod P = secret" using assms(4,5) by (simp add: cs_def P_def)
    have "reconstruct_secret frames self subset = Inr (peval cs 0 mod P) \<or>
          reconstruct_secret frames self subset = Inl RecursionError"
      using P P_def [symmetric] thr ne F vals dist by (rule reconstruct_interpolates(1))
    then have r1: "reconstruct_secret frames self subset = Inr secret \<or>
          reconstruct_secret frames self subset = Inl RecursionError"
      by (simp only: z)
    have r2: "\<forall>k. ss_prime self < 2 ^ k \<and> 2 * k + 1 \<le> frames \<longrightarrow>
                  reconstruct_secret frames self subset = Inr secret"
    proof (intro allI impI)
      fix k assume "ss_prime self < 2 ^ k \<and> 2 * k + 1 \<le> frames"
      then have k: "P < 2 ^ k" "2 * k + 1 \<le> frames" by (simp_all add: P_def)
      have "reconstruct_secret frames self subset = Inr (peval cs 0 mod P)"
        using P P_def [symmetric] thr ne F vals dist k by (rule reconstruct_interpolates(2))
      then show "reconstruct_secret frames self subset = Inr secret" by (simp only: z)
    qed
    from r1 r2 show ?thesis by (rule conjI)
  qed
  have sub': "\<forall>frames subset.
              set subset \<subseteq> set shares \<and> distinct subset \<and>
              int (length subset) = ss_threshold self \<and>
              (ss_total_shares self \<le> ss_prime self \<or> ss_threshold self = 1 \<or>
               distinct (map (\<lambda>share. fst share mod ss_prime self) subset)) \<longrightarrow>
              (reconstruct_secret frames self subset = Inr secret \<or>
               reconstruct_secret frames self subset = Inl RecursionError) \<and>
              (\<forall>k. ss_prime self < 2 ^ k \<and> 2 * k + 1 \<le> frames \<longrightarrow>
                   reconstruct_secret frames self subset = Inr secret)"
  proof (intro allI impI)
    fix frames subset
    assume a: "set subset \<subseteq> set shares \<and> distinct subset \<and>
              int (length subset) = ss_threshold self \<and>
              (ss_total_shares self \<le> ss_prime self \<or> ss_threshold self = 1 \<or>
               distinct (map (\<lambda>share. fst share mod ss_prime self) subset))"
    from a have a1: "set subset \<subseteq> set shares" by blast
    from a have a2: "distinct subset" by blast
    from a have a3: "int (length subset) = ss_threshold self"
      by blast
    from a have a4: "ss_total_shares self \<le> ss_prime self \<or> ss_threshold self = 1 \<or>
               distinct (map (\<lambda>share. fst share mod ss_prime self) subset)"
      by blast
    from a1 a2 a3 a4
    show "(reconstruct_secret frames self subset = Inr secret \<or>
               reconstruct_secret frames self subset = Inl RecursionError) \<and>
              (\<forall>k. ss_prime self < 2 ^ k \<and> 2 * k + 1 \<le> frames \<longrightarrow>
                   reconstruct_secret frames self subset = Inr secret)"
      by (rule sub)
  qed
  have pre: "reconstruct_secret frames self supplied =
             reconstruct_secret frames self (take (nat (ss_threshold self)) supplied)"
    if "ss_threshold self \<le> int (length supplied)" for frames supplied
    using _ that by (rule reconstruct_secret_prefix) (use assms(2) in simp)
  then have pre': "\<forall>frames supplied. ss_threshold self \<le> int (length supplied) \<longrightarrow>
              reconstruct_secret frames self supplied =
              reconstruct_secret frames self (take (nat (ss_threshold self)) supplied)"
    by blast
  show ?thesis
    by (rule exI [of _ shares], intro conjI) (rule gen ids sub' pre')+
qed

theorem reconstruct_generated_shares_witness:
  "generate_shares \<lparr> ss_total_shares = 3, ss_threshold = 2, ss_prime = 7 \<rparr> 3 [1] =
     Inr [(1, 4), (2, 5), (3, 6)] \<and>
   reconstruct_secret 1000 \<lparr> ss_total_shares = 3, ss_threshold = 2, ss_prime = 7 \<rparr> [(3, 6), (1, 4)] = Inr 3 \<and>
   reconstruct_secret 1000 \<lparr> ss_total_shares = 3, ss_threshold = 2, ss_prime = 7 \<rparr> [(2, 5), (3, 6), (1, 4)] =
   reconstruct_secret 1000 \<lparr> ss_total_shares = 3, ss_threshold = 2, ss_prime = 7 \<rparr> [(2, 5), (3, 6)] \<and>
   reconstruct_secret 1000 \<lparr> ss_total_shares = 3, ss_threshold = 2, ss_prime = 2 \<rparr> [(1, 0), (2, 1)] = Inr 1"
proof -
  let ?self = "\<lparr> ss_total_shares = 3, ss_threshold = 2, ss_prime = 7 \<rparr>"
  have g: "generate_shares ?self 3 [1] = Inr [(1, 4), (2, 5), (3, 6)]" by code_simp
  have 1: "is_prime (ss_prime ?self)" by code_simp
  have 2: "1 \<le> ss_threshold ?self" by simp
  have 3: "ss_threshold ?self \<le> ss_total_shares ?self" by simp
  have 4: "(0::int) \<le> 3" by simp
  have 5: "3 < ss_prime ?self" by simp
  from reconstruct_generated_shares [OF 1 2 3 4 5, of "[1]"] obtain shares where
    sh: "generate_shares ?self 3 [1] = Inr shares"
    and sub: "\<forall>frames subset.
              set subset \<subseteq> set shares \<and> distinct subset \<and>
              int (length subset) = ss_threshold ?self \<and>
              (ss_total_shares ?self \<le> ss_prime ?self \<or> ss_threshold ?self = 1 \<or>
               distinct (map (\<lambda>share. fst share mod ss_prime ?self) subset)) \<longrightarrow>
              (reconstruct_secret frames ?self subset = Inr 3 \<or>
               reconstruct_secret frames ?self subset = Inl RecursionError) \<and>
              (\<forall>k. ss_prime ?self < 2 ^ k \<and> 2 * k + 1 \<le> frames \<longrightarrow>
                   reconstruct_secret frames ?self subset = Inr 3)"
    and pre: "\<forall>frames supplied. ss_threshold ?self \<le> int (length supplied) \<longrightarrow>
                 reconstruct_secret frames ?self supplied =
                 reconstruct_secret frames ?self (take (nat (ss_threshold ?self)) supplied)"
    by blast
  from sh g have shares: "shares = [(1, 4), (2, 5), (3, 6)]" by simp
  have "\<forall>k. ss_prime ?self < 2 ^ k \<and> 2 * k + 1 \<le> 1000 \<longrightarrow>
            reconstruct_secret 1000 ?self [(3, 6), (1, 4)] = Inr 3"
    using sub [rule_format, of "[(3, 6), (1, 4)]" 1000] by (simp add: shares)
  from this [rule_format, of 3]
  have a: "reconstruct_secret 1000 ?self [(3, 6), (1, 4)] = Inr 3" by simp
  have b: "reconstruct_secret 1000 ?self [(2, 5), (3, 6), (1, 4)] =
           reconstruct_secret 1000 ?self [(2, 5), (3, 6)]"
    using pre [rule_format, of "[(2, 5), (3, 6), (1, 4)]" 1000] by simp
  let ?two = "\<lparr> ss_total_shares = 3, ss_threshold = 2, ss_prime = 2 \<rparr>"
  have g2: "generate_shares ?two 1 [1] = Inr [(1, 0), (2, 1), (3, 0)]" by code_simp
  have 6: "is_prime (ss_prime ?two)" by code_simp
  have 7: "1 \<le> ss_threshold ?two" by simp
  have 8: "ss_threshold ?two \<le> ss_total_shares ?two" by simp
  have 9: "(0::int) \<le> 1" by simp
  have 10: "1 < ss_prime ?two" by simp
  from reconstruct_generated_shares [OF 6 7 8 9 10, of "[1]"] obtain shares2 where
    sh2: "generate_shares ?two 1 [1] = Inr shares2"
    and sub2: "\<forall>frames subset.
              set subset \<subseteq> set shares2 \<and> distinct subset \<and>
              int (length subset) = ss_threshold ?two \<and>
              (ss_total_shares ?two \<le> ss_prime ?two \<or> ss_threshold ?two = 1 \<or>
               distinct (map (\<lambda>share. fst share mod ss_prime ?two) subset)) \<longrightarrow>
              (reconstruct_secret frames ?two subset = Inr 1 \<or>
               reconstruct_secret frames ?two subset = Inl RecursionError) \<and>
              (\<forall>k. ss_prime ?two < 2 ^ k \<and> 2 * k + 1 \<le> frames \<longrightarrow>
                   reconstruct_secret frames ?two subset = Inr 1)"
    by blast
  from sh2 g2 have shares2: "shares2 = [(1, 0), (2, 1), (3, 0)]" by simp
  have "\<forall>k. ss_prime ?two < 2 ^ k \<and> 2 * k + 1 \<le> 1000 \<longrightarrow>
            reconstruct_secret 1000 ?two [(1, 0), (2, 1)] = Inr 1"
    using sub2 [rule_format, of "[(1, 0), (2, 1)]" 1000] by (simp add: shares2)
  from this [rule_format, of 2]
  have c: "reconstruct_secret 1000 ?two [(1, 0), (2, 1)] = Inr 1" by simp
  show ?thesis using g a b c by simp
qed

text \<open>
  The claim as stated fails when two share ids coincide modulo the prime (prime 2, ids 1
  and 3: the modular inverse raises ValueError), for a negative secret (the result is the
  secret reduced modulo the prime), and when the recursion of \<open>extended_gcd\<close> is deeper
  than the interpreter allows (RecursionError).
\<close>

theorem reconstruct_generated_shares_counterexample:
  "is_prime 2 \<and>
   generate_shares \<lparr> ss_total_shares = 3, ss_threshold = 2, ss_prime = 2 \<rparr> 1 [1] =
     Inr [(1, 0), (2, 1), (3, 0)] \<and>
   reconstruct_secret 1000 \<lparr> ss_total_shares = 3, ss_threshold = 2, ss_prime = 2 \<rparr> [(1, 0), (3, 0)] =
     Inl ValueError \<and>
   generate_shares \<lparr> ss_total_shares = 3, ss_threshold = 2, ss_prime = 7 \<rparr> (- 1) [1] =
     Inr [(1, 0), (2, 1), (3, 2)] \<and>
   reconstruct_secret 1000 \<lparr> ss_total_shares = 3, ss_threshold = 2, ss_prime = 7 \<rparr> [(1, 0), (2, 1)] =
     Inr 6 \<and>
   generate_shares \<lparr> ss_total_shares = 3, ss_threshold = 2, ss_prime = 7 \<rparr> 3 [1] =
     Inr [(1, 4), (2, 5), (3, 6)] \<and>
   reconstruct_secret 2 \<lparr> ss_total_shares = 3, ss_threshold = 2, ss_prime = 7 \<rparr> [(1, 4), (2, 5)] =
     Inl RecursionError"
  by code_simp

end
